theory Spec2Isabelle
  imports Main "HOL-Library.FSet" "HOL-Library.Multiset" "HOL-Library.Sublist"
begin

section \<open>Data model\<close>

text \<open>
  A song is the dictionary \<^verbatim>\<open>{'name': ..., 'performers': set(...)}\<close> built by
  \<^verbatim>\<open>parseCsv\<close>. Python sets are finite, so the performers are a finite set. Python
  compares dictionaries by content (\<^verbatim>\<open>==\<close>), which is the equality of the record.
\<close>

record item =
  name :: string
  performers :: "string fset"

text \<open>
  The two ways \<^verbatim>\<open>generateSetlist\<close> can raise: the explicit \<^verbatim>\<open>ValueError\<close> of line 103
  and the \<^verbatim>\<open>TypeError\<close> of subscripting \<^verbatim>\<open>None\<close> at line 155 when no iteration ran.
\<close>

datatype error = ValueError | TypeError

section \<open>Python list primitives\<close>

text \<open>
  An index of a slice (and of \<^verbatim>\<open>list.insert\<close>) is an arbitrary integer: a negative
  one counts from the end, and the result is clamped into \<open>0..n\<close>.
\<close>

definition slice_index :: "nat \<Rightarrow> int \<Rightarrow> nat" where
  "slice_index n i = (if i < 0 then nat (max 0 (i + int n)) else min (nat i) n)"

text \<open>\<^verbatim>\<open>xs[lo:hi]\<close>, \<^verbatim>\<open>xs[:hi]\<close>, \<^verbatim>\<open>xs[lo:]\<close> and \<^verbatim>\<open>xs.insert(i, x)\<close>.\<close>

definition py_slice :: "'a list \<Rightarrow> int \<Rightarrow> int \<Rightarrow> 'a list" where
  "py_slice xs lo hi =
     (let l = slice_index (length xs) lo; h = slice_index (length xs) hi
      in take (h - l) (drop l xs))"

definition slice_to :: "'a list \<Rightarrow> int \<Rightarrow> 'a list" where
  "slice_to xs hi = take (slice_index (length xs) hi) xs"

definition slice_from :: "'a list \<Rightarrow> int \<Rightarrow> 'a list" where
  "slice_from xs lo = drop (slice_index (length xs) lo) xs"

definition list_insert :: "'a list \<Rightarrow> int \<Rightarrow> 'a \<Rightarrow> 'a list" where
  "list_insert xs i x =
     (let k = slice_index (length xs) i in take k xs @ [x] @ drop k xs)"

text \<open>\<^verbatim>\<open>sub in s\<close> on strings: \<open>sub\<close> occurs as a contiguous block of \<open>s\<close>.\<close>

fun contains :: "string \<Rightarrow> string \<Rightarrow> bool" where
  "contains sub [] = (sub = [])"
| "contains sub (c # cs) = (prefix sub (c # cs) \<or> contains sub cs)"

section \<open>The score\<close>

definition calculate_overlap :: "item \<Rightarrow> item \<Rightarrow> nat" where
  "calculate_overlap song1 song2 = fcard (performers song1 |\<inter>| performers song2)"

text \<open>
  The body of the inner loop. The source accumulates the score in a float that starts at
  \<^verbatim>\<open>0.0\<close>; every value it takes is an integer multiple of ten, and floats represent
  integers exactly up to \<open>2 ^ 53\<close>, so the score is modelled as an integer.
\<close>

definition penalty :: "item list \<Rightarrow> nat \<Rightarrow> nat \<Rightarrow> int" where
  "penalty setlist i j =
     (let overlap = calculate_overlap (setlist ! i) (setlist ! j);
          distance = int j - int i
      in int overlap * (4 - distance) * 10)"

text \<open>
  The two nested \<^verbatim>\<open>for\<close> loops over \<^verbatim>\<open>range(len(setlist))\<close> and
  \<^verbatim>\<open>range(i + 1, min(i + 4, len(setlist)))\<close>, each a left fold that threads the score.
\<close>

definition calculate_setlist_score :: "item list \<Rightarrow> int" where
  "calculate_setlist_score setlist =
     foldl (\<lambda>score i.
              foldl (\<lambda>score j. score - penalty setlist i j) score
                    [i + 1 ..< min (i + 4) (length setlist)])
           0 [0 ..< length setlist]"

text \<open>
  The score as the specification words it: minus the sum, over the positions \<open>i\<close> and the
  positions \<open>j\<close> among \<open>i + 1\<close>, \<open>i + 2\<close>, \<open>i + 3\<close> that lie within the sequence, of
  overlap times \<open>4 - (j - i)\<close> times ten.
\<close>

definition score_spec :: "item list \<Rightarrow> int" where
  "score_spec s =
     - (\<Sum>i \<in> {0 ..< length s}. \<Sum>j \<in> Set.filter (\<lambda>j. j < length s) {i + 1, i + 2, i + 3}.
          int (fcard (performers (s ! i) |\<inter>| performers (s ! j))) * (4 - (int j - int i)) * 10)"

section \<open>Finding the best position\<close>

text \<open>\<^verbatim>\<open>float('-inf')\<close> is \<open>None\<close>: every score is strictly greater than it.\<close>

fun exceeds :: "int \<Rightarrow> int option \<Rightarrow> bool" where
  "exceeds score None = True"
| "exceeds score (Some best) = (score > best)"

text \<open>Lines 73 and 75: the trial list with the song inserted, and its scored section.\<close>

definition section_to_score :: "item list \<Rightarrow> item \<Rightarrow> int \<Rightarrow> item list" where
  "section_to_score partial_setlist song pos =
     (let test_list = slice_to partial_setlist pos @ [song] @ slice_from partial_setlist pos
      in py_slice test_list (max 0 (pos - 3)) (min (int (length test_list)) (pos + 4)))"

text \<open>Line 76: the score of that section.\<close>

abbreviation window_score :: "item list \<Rightarrow> item \<Rightarrow> int \<Rightarrow> int" where
  "window_score partial_setlist song pos \<equiv>
     calculate_setlist_score (section_to_score partial_setlist song pos)"

text \<open>The loop over the candidate positions, threading \<open>(best_score, best_position)\<close>.\<close>

fun scan_positions ::
  "item list \<Rightarrow> item \<Rightarrow> int list \<Rightarrow> int option \<times> int \<Rightarrow> int option \<times> int" where
  "scan_positions partial_setlist song [] (best_score, best_position) =
     (best_score, best_position)"
| "scan_positions partial_setlist song (pos # rest) (best_score, best_position) =
     (let score = calculate_setlist_score (section_to_score partial_setlist song pos)
      in if exceeds score best_score
         then scan_positions partial_setlist song rest (Some score, pos)
         else scan_positions partial_setlist song rest (best_score, best_position))"

definition find_best_position_for_song :: "item list \<Rightarrow> item \<Rightarrow> int \<Rightarrow> int \<Rightarrow> int" where
  "find_best_position_for_song partial_setlist song start_idx end_idx =
     snd (scan_positions partial_setlist song [start_idx .. end_idx] (None, start_idx))"

section \<open>Building one setlist\<close>

abbreviation total_needed :: nat where
  "total_needed \<equiv> 19"

text \<open>
  The first \<^verbatim>\<open>while\<close> loop: \<^verbatim>\<open>remaining.pop(0)\<close> takes the head of the queue, the
  loop stops when the queue is empty or the setlist is full.
\<close>

fun place_songs :: "item list \<Rightarrow> item list \<Rightarrow> item list" where
  "place_songs setlist [] = setlist"
| "place_songs setlist (song # remaining) =
     (if length setlist < total_needed then
        (if length setlist = 0 then place_songs (setlist @ [song]) remaining
         else
           (let pos = find_best_position_for_song setlist song 0 (int (length setlist))
            in place_songs (list_insert setlist pos song) remaining))
      else setlist)"

text \<open>The second \<^verbatim>\<open>while\<close> loop, over the guest performances.\<close>

function place_guests :: "item list \<Rightarrow> item list \<Rightarrow> nat \<Rightarrow> item list" where
  "place_guests guest_performances setlist guest_idx =
     (if length setlist < total_needed \<and> guest_idx < length guest_performances then
        (let ideal_pos =
               (length setlist * (guest_idx + 1)) div (length guest_performances + 1)
         in place_guests guest_performances
              (list_insert setlist (int ideal_pos) (guest_performances ! guest_idx))
              (guest_idx + 1))
      else setlist)"
  by pat_completeness auto
termination
  by (relation "measure (\<lambda>(guest_performances, setlist, guest_idx).
        length guest_performances - guest_idx)") auto

declare place_guests.simps [simp del]

text \<open>Lines 121 to 144: the setlist built from one shuffled pool.\<close>

definition build_setlist :: "item list \<Rightarrow> item list \<Rightarrow> item \<Rightarrow> item \<Rightarrow> item list" where
  "build_setlist shuffled guest_performances bouncy this_world =
     (let setlist = place_songs [] shuffled;
          setlist = place_guests guest_performances setlist 0
      in setlist @ [bouncy, this_world])"

section \<open>Grouping\<close>

text \<open>Lines 153 to 161: the four slices of the best setlist.\<close>

definition split_groups :: "item list option \<Rightarrow> error + item list list" where
  "split_groups best =
     (case best of
        None \<Rightarrow> Inl TypeError
      | Some best_setlist \<Rightarrow>
          Inr [py_slice best_setlist 0 5, py_slice best_setlist 5 10,
               py_slice best_setlist 10 15, py_slice best_setlist 15 21])"

section \<open>The search\<close>

text \<open>
  What the iterations thread: the best score and setlist so far, and the state of the
  random source. \<^verbatim>\<open>random.shuffle\<close> is a parameter \<open>shuffle\<close> that takes the state of
  the source and a list, and returns the shuffled list with the next state.
\<close>

record 'r search =
  best_score :: "int option"
  best_setlist :: "item list option"
  rng :: 'r

definition run_iteration ::
  "('r \<Rightarrow> item list \<Rightarrow> item list \<times> 'r) \<Rightarrow> item list \<Rightarrow> item list \<Rightarrow> item \<Rightarrow> item
     \<Rightarrow> 'r search \<Rightarrow> 'r search" where
  "run_iteration shuffle available_songs guest_performances bouncy this_world st =
     (let (shuffled, r) = shuffle (rng st) available_songs;
          setlist = build_setlist shuffled guest_performances bouncy this_world;
          score = calculate_setlist_score setlist
      in if exceeds score (best_score st)
         then \<lparr>best_score = Some score, best_setlist = Some setlist, rng = r\<rparr>
         else st\<lparr>rng := r\<rparr>)"

primrec run_iterations ::
  "('r \<Rightarrow> item list \<Rightarrow> item list \<times> 'r) \<Rightarrow> item list \<Rightarrow> item list \<Rightarrow> item \<Rightarrow> item
     \<Rightarrow> nat \<Rightarrow> 'r search \<Rightarrow> 'r search" where
  "run_iterations shuffle available_songs guest_performances bouncy this_world 0 st = st"
| "run_iterations shuffle available_songs guest_performances bouncy this_world (Suc n) st =
     run_iterations shuffle available_songs guest_performances bouncy this_world n
       (run_iteration shuffle available_songs guest_performances bouncy this_world st)"

text \<open>
  \<^verbatim>\<open>generateSetlist\<close>. \<^verbatim>\<open>range(iterations)\<close> is empty for a negative count. The result
  comes with the final state of the random source.
\<close>

definition generateSetlist ::
  "('r \<Rightarrow> item list \<Rightarrow> item list \<times> 'r) \<Rightarrow> item list \<Rightarrow> item list \<Rightarrow> int \<Rightarrow> 'r
     \<Rightarrow> (error + item list list) \<times> 'r" where
  "generateSetlist shuffle songs guest_performances iterations r =
     (case (find (\<lambda>s. contains ''Bouncy'' (name s)) songs,
            find (\<lambda>s. contains ''This World'' (name s)) songs) of
        (Some bouncy, Some this_world) \<Rightarrow>
          (let available_songs = filter (\<lambda>s. s \<notin> set [bouncy, this_world]) songs;
               st = run_iterations shuffle available_songs guest_performances bouncy this_world
                      (nat iterations) \<lparr>best_score = None, best_setlist = None, rng = r\<rparr>
           in (split_groups (best_setlist st), rng st))
      | _ \<Rightarrow> (Inl ValueError, r))"

section \<open>The same program on a store of objects\<close>

text \<open>
  Python passes lists and dictionaries by reference, and \<^verbatim>\<open>shuffle\<close>, \<^verbatim>\<open>pop\<close>,
  \<^verbatim>\<open>append\<close>, \<^verbatim>\<open>insert\<close> and \<^verbatim>\<open>extend\<close> update a list object in place. To tell
  which objects \<^verbatim>\<open>generateSetlist\<close> writes, the program is given a second time on an
  explicit store: list objects hold references to song dictionaries, every expression
  that creates a list (\<^verbatim>\<open>[]\<close>, a comprehension, \<^verbatim>\<open>.copy()\<close>, a slice that is kept)
  allocates a new object, and every in-place update writes the object of the variable it
  is called on. Expressions that only read (the score, the position finder and its
  temporary lists) are computed from the contents read from the store.
\<close>

type_synonym ref = nat

record store =
  list_objs :: "ref \<Rightarrow> ref list option"
  dict_objs :: "ref \<Rightarrow> item option"
  fresh :: ref

text \<open>
  Reading an object. Every reference a Python program holds denotes an object; the
  defaults are for references that denote none.
\<close>

definition get_list :: "store \<Rightarrow> ref \<Rightarrow> ref list" where
  "get_list h a = (case list_objs h a of Some xs \<Rightarrow> xs | None \<Rightarrow> [])"

text \<open>An update in place, and the allocation of a new list object.\<close>

definition set_list :: "ref \<Rightarrow> ref list \<Rightarrow> store \<Rightarrow> store" where
  "set_list a xs h = h\<lparr>list_objs := (list_objs h)(a \<mapsto> xs)\<rparr>"

definition new_list :: "ref list \<Rightarrow> store \<Rightarrow> ref \<times> store" where
  "new_list xs h =
     (fresh h, h\<lparr>list_objs := (list_objs h)(fresh h \<mapsto> xs), fresh := Suc (fresh h)\<rparr>)"

definition get_item :: "store \<Rightarrow> ref \<Rightarrow> item" where
  "get_item h a =
     (case dict_objs h a of Some song \<Rightarrow> song | None \<Rightarrow> \<lparr>name = [], performers = {||}\<rparr>)"

definition items_of :: "store \<Rightarrow> ref list \<Rightarrow> item list" where
  "items_of h refs = map (get_item h) refs"

text \<open>
  \<^verbatim>\<open>s in xs\<close> on a list of dictionaries: some element is the same object or has equal
  contents.
\<close>

definition py_in :: "store \<Rightarrow> ref \<Rightarrow> ref list \<Rightarrow> bool" where
  "py_in h s xs = list_ex (\<lambda>e. s = e \<or> get_item h s = get_item h e) xs"

text \<open>
  The first \<^verbatim>\<open>while\<close> loop on the objects \<open>setlist\<close> and \<open>remaining\<close>. When both
  names denote the same object the loop need not end, so the result is optional.
\<close>

partial_function (option) place_songs_h :: "ref \<Rightarrow> ref \<Rightarrow> store \<Rightarrow> store option" where
  "place_songs_h setlist remaining h =
     (if length (get_list h setlist) < total_needed \<and> get_list h remaining \<noteq> [] then
        (let song = hd (get_list h remaining);
             h1 = set_list remaining (tl (get_list h remaining)) h
         in if length (get_list h1 setlist) = 0
            then place_songs_h setlist remaining
                   (set_list setlist (get_list h1 setlist @ [song]) h1)
            else
              (let pos = find_best_position_for_song (items_of h1 (get_list h1 setlist))
                           (get_item h1 song) 0 (int (length (get_list h1 setlist)))
               in place_songs_h setlist remaining
                    (set_list setlist (list_insert (get_list h1 setlist) pos song) h1)))
      else Some h)"

text \<open>The guest loop: every round makes the setlist object one longer.\<close>

function place_guests_h :: "ref \<Rightarrow> ref \<Rightarrow> nat \<Rightarrow> store \<Rightarrow> store" where
  "place_guests_h guest_performances setlist guest_idx h =
     (if length (get_list h setlist) < total_needed
         \<and> guest_idx < length (get_list h guest_performances) then
        (let ideal_pos = (length (get_list h setlist) * (guest_idx + 1))
                           div (length (get_list h guest_performances) + 1)
         in place_guests_h guest_performances setlist (guest_idx + 1)
              (set_list setlist
                 (list_insert (get_list h setlist) (int ideal_pos)
                    (get_list h guest_performances ! guest_idx)) h))
      else h)"
  by pat_completeness auto
termination
  by (relation "measure (\<lambda>(guest_performances, setlist, guest_idx, h).
        total_needed - length (get_list h setlist))")
     (auto simp: get_list_def set_list_def list_insert_def Let_def)

declare place_guests_h.simps [simp del]

text \<open>The state of the search, with the store and the best setlist as a reference.\<close>

record 'r search_h =
  best_score_h :: "int option"
  best_setlist_h :: "ref option"
  rng_h :: 'r
  heap :: store

definition run_iteration_h ::
  "('r \<Rightarrow> ref list \<Rightarrow> ref list \<times> 'r) \<Rightarrow> ref \<Rightarrow> ref \<Rightarrow> ref \<Rightarrow> ref
     \<Rightarrow> 'r search_h \<Rightarrow> 'r search_h option" where
  "run_iteration_h shuffle available_songs guest_performances bouncy this_world st =
     (let (shuffled, h1) = new_list (get_list (heap st) available_songs) (heap st);
          (permuted, r) = shuffle (rng_h st) (get_list h1 shuffled);
          h2 = set_list shuffled permuted h1;
          (setlist, h3) = new_list [] h2;
          (remaining, h4) = new_list (get_list h3 shuffled) h3
      in case place_songs_h setlist remaining h4 of
           None \<Rightarrow> None
         | Some h5 \<Rightarrow>
             (let h6 = place_guests_h guest_performances setlist 0 h5;
                  h7 = set_list setlist (get_list h6 setlist @ [bouncy, this_world]) h6;
                  score = calculate_setlist_score (items_of h7 (get_list h7 setlist))
              in if exceeds score (best_score_h st)
                 then (let (copy, h8) = new_list (get_list h7 setlist) h7
                       in Some \<lparr>best_score_h = Some score, best_setlist_h = Some copy,
                                rng_h = r, heap = h8\<rparr>)
                 else Some (st\<lparr>rng_h := r, heap := h7\<rparr>)))"

primrec run_iterations_h ::
  "('r \<Rightarrow> ref list \<Rightarrow> ref list \<times> 'r) \<Rightarrow> ref \<Rightarrow> ref \<Rightarrow> ref \<Rightarrow> ref
     \<Rightarrow> nat \<Rightarrow> 'r search_h \<Rightarrow> 'r search_h option" where
  "run_iterations_h shuffle available_songs guest_performances bouncy this_world 0 st = Some st"
| "run_iterations_h shuffle available_songs guest_performances bouncy this_world (Suc n) st =
     (case run_iteration_h shuffle available_songs guest_performances bouncy this_world st of
        None \<Rightarrow> None
      | Some st1 \<Rightarrow>
          run_iterations_h shuffle available_songs guest_performances bouncy this_world n st1)"

definition split_groups_h :: "ref option \<Rightarrow> store \<Rightarrow> (error + ref list) \<times> store" where
  "split_groups_h best h =
     (case best of
        None \<Rightarrow> (Inl TypeError, h)
      | Some a \<Rightarrow>
          (let (g1, h1) = new_list (py_slice (get_list h a) 0 5) h;
               (g2, h2) = new_list (py_slice (get_list h1 a) 5 10) h1;
               (g3, h3) = new_list (py_slice (get_list h2 a) 10 15) h2;
               (g4, h4) = new_list (py_slice (get_list h3 a) 15 21) h3
           in (Inr [g1, g2, g3, g4], h4)))"

definition generateSetlist_h ::
  "('r \<Rightarrow> ref list \<Rightarrow> ref list \<times> 'r) \<Rightarrow> ref \<Rightarrow> ref \<Rightarrow> int \<Rightarrow> 'r \<Rightarrow> store
     \<Rightarrow> ((error + ref list) \<times> 'r \<times> store) option" where
  "generateSetlist_h shuffle songs guest_performances iterations r h =
     (case (find (\<lambda>s. contains ''Bouncy'' (name (get_item h s))) (get_list h songs),
            find (\<lambda>s. contains ''This World'' (name (get_item h s))) (get_list h songs)) of
        (Some bouncy, Some this_world) \<Rightarrow>
          (let (available_songs, h1) =
                 new_list (filter (\<lambda>s. \<not> py_in h s [bouncy, this_world]) (get_list h songs)) h
           in case run_iterations_h shuffle available_songs guest_performances bouncy this_world
                     (nat iterations)
                     \<lparr>best_score_h = None, best_setlist_h = None, rng_h = r, heap = h1\<rparr> of
                None \<Rightarrow> None
              | Some st \<Rightarrow>
                  (let (groups, h2) = split_groups_h (best_setlist_h st) (heap st)
                   in Some (groups, rng_h st, h2)))
      | _ \<Rightarrow> Some (Inl ValueError, r, h))"

text \<open>
  \<open>keeps h0 h\<close>: the store \<open>h\<close> has every dictionary of \<open>h0\<close> and every list object
  that was allocated in \<open>h0\<close> with the contents it had in \<open>h0\<close>.
\<close>

definition keeps :: "store \<Rightarrow> store \<Rightarrow> bool" where
  "keeps h0 h \<longleftrightarrow>
     fresh h0 \<le> fresh h \<and> dict_objs h = dict_objs h0
     \<and> (\<forall>a < fresh h0. list_objs h a = list_objs h0 a)"

text \<open>
  \<open>agrees base st stp\<close>: the search state \<open>st\<close> on the store and the search state
  \<open>stp\<close> on lists hold the same best score, the same state of the random source and the
  same best setlist, read through the dictionaries of \<open>base\<close>.
\<close>

definition agrees :: "store \<Rightarrow> 'r search_h \<Rightarrow> 'r search \<Rightarrow> bool" where
  "agrees h0 st stp \<longleftrightarrow>
     dict_objs (heap st) = dict_objs h0
     \<and> best_score_h st = best_score stp \<and> rng_h st = rng stp
     \<and> (case best_setlist_h st of
          None \<Rightarrow> best_setlist stp = None
        | Some b \<Rightarrow> b < fresh (heap st)
                    \<and> best_setlist stp = Some (items_of h0 (get_list (heap st) b)))"

section \<open>Properties of the score\<close>

lemma foldl_minus_sum_list:
  "foldl (\<lambda>score j. score - f j) (a::int) xs = a - sum_list (map f xs)"
  by (induction xs arbitrary: a) simp_all

lemma foldl_nested_minus:
  "foldl (\<lambda>score i. foldl (\<lambda>score j. score - f i j) score (g i)) (a::int) xs
     = a - sum_list (map (\<lambda>i. sum_list (map (f i) (g i))) xs)"
  by (induction xs arbitrary: a) (simp_all add: foldl_minus_sum_list)

lemma score_as_sum:
  "calculate_setlist_score s =
     - (\<Sum>i = 0 ..< length s. \<Sum>j = i + 1 ..< min (i + 4) (length s). penalty s i j)"
  unfolding calculate_setlist_score_def foldl_nested_minus
  by (simp add: interv_sum_list_conv_sum_set_nat)

lemma lookahead_set:
  "Set.filter (\<lambda>j. j < n) {i + 1, i + 2, i + 3} = {i + 1 ..< min (i + 4) (n::nat)}"
  by auto

text \<open>
  C2: for every sequence, the score computed by the two loops is the negated sum, over the
  positions \<open>i\<close> and the positions \<open>j\<close> in \<open>{i + 1, i + 2, i + 3}\<close> within the sequence,
  of the overlap of the two performer sets times \<open>4 - (j - i)\<close> times ten. The score is
  a function of the sequence alone.
\<close>

theorem score_refines_spec: "calculate_setlist_score s = score_spec s"
  unfolding score_as_sum score_spec_def lookahead_set
  by (simp add: penalty_def calculate_overlap_def)

lemma penalty_nonneg: "i < j \<Longrightarrow> j < i + 4 \<Longrightarrow> 0 \<le> penalty s i j"
  by (simp add: penalty_def)

lemma penalty_zero_iff:
  "i < j \<Longrightarrow> j < i + 4 \<Longrightarrow>
     penalty s i j = 0 \<longleftrightarrow> performers (s ! i) |\<inter>| performers (s ! j) = {||}"
  by (auto simp add: penalty_def calculate_overlap_def fcard_fempty)

text \<open>
  C7: the score of every sequence is at most zero, and it is zero exactly when no two
  items at distance at most three share a performer.
\<close>

theorem score_nonpos_and_zero_iff:
  "calculate_setlist_score s \<le> 0 \<and>
   (calculate_setlist_score s = 0 \<longleftrightarrow>
      (\<forall>i j. i < j \<and> j \<le> i + 3 \<and> j < length s \<longrightarrow>
         performers (s ! i) |\<inter>| performers (s ! j) = {||}))"
proof -
  let ?inner = "\<lambda>i. \<Sum>j = i + 1 ..< min (i + 4) (length s). penalty s i j"
  have inner_nonneg: "0 \<le> ?inner i" for i
    by (rule sum_nonneg) (simp add: penalty_nonneg)
  have nonpos: "calculate_setlist_score s \<le> 0"
    unfolding score_as_sum using inner_nonneg by (simp add: sum_nonneg)
  have "calculate_setlist_score s = 0 \<longleftrightarrow> (\<forall>i \<in> {0 ..< length s}. ?inner i = 0)"
    unfolding score_as_sum using inner_nonneg by (simp add: sum_nonneg_eq_0_iff)
  also have "\<dots> \<longleftrightarrow> (\<forall>i \<in> {0 ..< length s}. \<forall>j \<in> {i + 1 ..< min (i + 4) (length s)}.
                         penalty s i j = 0)"
    by (intro ball_cong refl sum_nonneg_eq_0_iff) (simp_all add: penalty_nonneg)
  also have "\<dots> \<longleftrightarrow> (\<forall>i j. i < j \<and> j \<le> i + 3 \<and> j < length s \<longrightarrow>
                         performers (s ! i) |\<inter>| performers (s ! j) = {||})"
  proof (intro iffI allI impI ballI)
    fix i j
    assume h: "\<forall>i \<in> {0 ..< length s}. \<forall>j \<in> {i + 1 ..< min (i + 4) (length s)}.
                 penalty s i j = 0"
       and ij: "i < j \<and> j \<le> i + 3 \<and> j < length s"
    from ij have "i \<in> {0 ..< length s}" "j \<in> {i + 1 ..< min (i + 4) (length s)}" by auto
    with h have "penalty s i j = 0" by blast
    with ij show "performers (s ! i) |\<inter>| performers (s ! j) = {||}"
      by (simp add: penalty_zero_iff)
  next
    fix i j
    assume h: "\<forall>i j. i < j \<and> j \<le> i + 3 \<and> j < length s \<longrightarrow>
                 performers (s ! i) |\<inter>| performers (s ! j) = {||}"
       and "i \<in> {0 ..< length s}" and j: "j \<in> {i + 1 ..< min (i + 4) (length s)}"
    from j have ij: "i < j" "j < i + 4" "j \<le> i + 3" "j < length s" by auto
    with h have "performers (s ! i) |\<inter>| performers (s ! j) = {||}" by blast
    with ij show "penalty s i j = 0" by (simp add: penalty_zero_iff)
  qed
  finally show ?thesis using nonpos by blast
qed

text \<open>
  Two songs that share the performer \<open>A\<close>, one slot apart: the positions 0 and 1 satisfy
  the distance condition, the performer sets meet, and the score is below zero.
\<close>

theorem score_nonpos_and_zero_iff_witness:
  "(0::nat) < 1 \<and> (1::nat) \<le> 0 + 3
   \<and> 1 < length [\<lparr>name = ''x'', performers = {|''A''|}\<rparr>,
                  \<lparr>name = ''y'', performers = {|''A'', ''B''|}\<rparr>]
   \<and> calculate_setlist_score [\<lparr>name = ''x'', performers = {|''A''|}\<rparr>,
                               \<lparr>name = ''y'', performers = {|''A'', ''B''|}\<rparr>] < 0"
proof -
  let ?s = "[\<lparr>name = ''x'', performers = {|''A''|}\<rparr>,
             \<lparr>name = ''y'', performers = {|''A'', ''B''|}\<rparr>]"
  have shared: "performers (?s ! 0) |\<inter>| performers (?s ! 1) \<noteq> {||}" by auto
  have "\<not> (\<forall>i j. i < j \<and> j \<le> i + 3 \<and> j < length ?s \<longrightarrow>
              performers (?s ! i) |\<inter>| performers (?s ! j) = {||})"
  proof
    assume "\<forall>i j. i < j \<and> j \<le> i + 3 \<and> j < length ?s \<longrightarrow>
              performers (?s ! i) |\<inter>| performers (?s ! j) = {||}"
    then have "(0::nat) < 1 \<and> (1::nat) \<le> 0 + 3 \<and> 1 < length ?s \<longrightarrow>
                 performers (?s ! 0) |\<inter>| performers (?s ! 1) = {||}" by blast
    with shared show False by simp
  qed
  with score_nonpos_and_zero_iff [of ?s] have "calculate_setlist_score ?s \<noteq> 0" by blast
  moreover from score_nonpos_and_zero_iff [of ?s] have "calculate_setlist_score ?s \<le> 0"
    by blast
  ultimately have "calculate_setlist_score ?s < 0" by linarith
  then show ?thesis by simp
qed

section \<open>Properties of the position finder\<close>

text \<open>
  For a position within the partial setlist no index is clamped or counted from the end:
  the scored section is the part from \<open>k - 3\<close> (at least 0) to \<open>k + 4\<close> (at most the
  length) of the setlist with the song inserted at \<open>k\<close>.
\<close>

lemma section_to_score_in_range:
  assumes "k \<le> length partial_setlist"
  shows "section_to_score partial_setlist song (int k)
           = take (min (length partial_setlist + 1) (k + 4) - (k - 3))
               (drop (k - 3) (take k partial_setlist @ song # drop k partial_setlist))"
proof -
  define test_list where "test_list = take k partial_setlist @ [song] @ drop k partial_setlist"
  have len: "length test_list = length partial_setlist + 1"
    using assms by (simp add: test_list_def)
  have i1: "slice_index (length partial_setlist) (int k) = k"
    using assms by (simp add: slice_index_def)
  have i2: "slice_index (length test_list) (max 0 (int k - 3)) = k - 3"
    using assms by (simp add: slice_index_def len)
  have i3: "slice_index (length test_list) (min (int (length test_list)) (int k + 4))
              = min (length partial_setlist + 1) (k + 4)"
  proof -
    have "min (int (length test_list)) (int k + 4)
            = int (min (length partial_setlist + 1) (k + 4))"
      by (simp add: len)
    then show ?thesis by (simp only: slice_index_def len) simp
  qed
  have "section_to_score partial_setlist song (int k)
          = py_slice test_list (max 0 (int k - 3)) (min (int (length test_list)) (int k + 4))"
    by (simp only: section_to_score_def slice_to_def slice_from_def Let_def i1 test_list_def)
  also have "\<dots> = take (min (length partial_setlist + 1) (k + 4) - (k - 3))
                      (drop (k - 3) test_list)"
    by (simp only: py_slice_def Let_def i2 i3)
  finally show ?thesis by (simp add: test_list_def)
qed

lemma scan_positions_append:
  "scan_positions partial_setlist song (ps @ qs) st =
     scan_positions partial_setlist song qs (scan_positions partial_setlist song ps st)"
proof (induction ps arbitrary: st)
  case Nil
  show ?case by (cases st) simp
next
  case (Cons p ps)
  show ?case by (cases st) (simp add: Cons.IH Let_def)
qed

lemma scan_positions_upto:
  assumes "start_idx \<le> e"
  shows "\<exists>bp. scan_positions partial_setlist song [start_idx .. e] (None, start_idx)
                = (Some (window_score partial_setlist song bp), bp)
           \<and> start_idx \<le> bp \<and> bp \<le> e
           \<and> (\<forall>q. start_idx \<le> q \<and> q \<le> e \<longrightarrow>
                  window_score partial_setlist song q \<le> window_score partial_setlist song bp)
           \<and> (\<forall>q. start_idx \<le> q \<and> q < bp \<longrightarrow>
                  window_score partial_setlist song q < window_score partial_setlist song bp)"
  using assms
proof (induction e rule: int_ge_induct)
  case base
  have "q = start_idx" if "start_idx \<le> q \<and> q \<le> start_idx" for q
    using that by simp
  then show ?case by (intro exI [of _ start_idx]) (auto simp: Let_def)
next
  case (step e)
  then obtain bp where
    scan: "scan_positions partial_setlist song [start_idx .. e] (None, start_idx)
             = (Some (window_score partial_setlist song bp), bp)"
    and range: "start_idx \<le> bp" "bp \<le> e"
    and maxi: "\<And>q. start_idx \<le> q \<Longrightarrow> q \<le> e \<Longrightarrow>
                 window_score partial_setlist song q \<le> window_score partial_setlist song bp"
    and first: "\<And>q. start_idx \<le> q \<Longrightarrow> q < bp \<Longrightarrow>
                 window_score partial_setlist song q < window_score partial_setlist song bp"
    by blast
  from step.hyps have split: "[start_idx .. e + 1] = [start_idx .. e] @ [e + 1]"
    by (simp add: upto_rec2)
  show ?case
  proof (cases "window_score partial_setlist song (e + 1) > window_score partial_setlist song bp")
    case True
    have "scan_positions partial_setlist song [start_idx .. e + 1] (None, start_idx)
            = (Some (window_score partial_setlist song (e + 1)), e + 1)"
      unfolding split scan_positions_append scan using True by (simp add: Let_def)
    moreover have "window_score partial_setlist song q \<le> window_score partial_setlist song (e + 1)"
      if "start_idx \<le> q" "q \<le> e + 1" for q
    proof (cases "q = e + 1")
      case False
      with that have "q \<le> e" by simp
      with maxi [OF that(1)] True show ?thesis by simp
    qed simp
    moreover have "window_score partial_setlist song q < window_score partial_setlist song (e + 1)"
      if "start_idx \<le> q" "q < e + 1" for q
      using maxi [OF that(1)] that(2) True by simp
    ultimately show ?thesis using step.hyps by (intro exI [of _ "e + 1"]) simp
  next
    case False
    have "scan_positions partial_setlist song [start_idx .. e + 1] (None, start_idx)
            = (Some (window_score partial_setlist song bp), bp)"
      unfolding split scan_positions_append scan using False by (simp add: Let_def)
    moreover have "window_score partial_setlist song q \<le> window_score partial_setlist song bp"
      if "start_idx \<le> q" "q \<le> e + 1" for q
    proof (cases "q = e + 1")
      case True
      with False show ?thesis by simp
    next
      case False
      with that have "q \<le> e" by simp
      with maxi [OF that(1)] show ?thesis by simp
    qed
    ultimately show ?thesis using range first by (intro exI [of _ bp]) simp
  qed
qed

text \<open>
  The scored section is the window the position finder is described by: the slice from
  \<open>max 0 (pos - 3)\<close> to \<open>min length (pos + 4)\<close> of the list with the song inserted at
  \<open>pos\<close>, for every integer position.
\<close>

lemma section_to_score_window:
  "section_to_score partial_setlist song pos
     = py_slice (list_insert partial_setlist pos song) (max 0 (pos - 3))
         (min (int (length (list_insert partial_setlist pos song))) (pos + 4))"
  by (simp add: section_to_score_def slice_to_def slice_from_def list_insert_def Let_def)

text \<open>
  C3: for bounds \<open>start_idx \<le> end_idx\<close>, the position returned lies within the bounds. The
  window of a position \<open>p\<close> is the slice from \<open>max 0 (p - 3)\<close> to \<open>min length (p + 4)\<close> of
  the list obtained by inserting the song at \<open>p\<close>. No candidate position has a window of
  greater score than the window of the returned position, and every candidate before the
  returned one has a window of strictly smaller score: the returned position is the
  smallest one whose window reaches the maximal score.
\<close>

theorem find_best_position_least_argmax:
  assumes "start_idx \<le> end_idx"
  shows "start_idx \<le> find_best_position_for_song partial_setlist song start_idx end_idx
       \<and> find_best_position_for_song partial_setlist song start_idx end_idx \<le> end_idx
       \<and> (\<forall>q. start_idx \<le> q \<and> q \<le> end_idx \<longrightarrow>
             calculate_setlist_score
               (py_slice (list_insert partial_setlist q song) (max 0 (q - 3))
                  (min (int (length (list_insert partial_setlist q song))) (q + 4)))
             \<le> calculate_setlist_score
                 (py_slice
                    (list_insert partial_setlist
                       (find_best_position_for_song partial_setlist song start_idx end_idx) song)
                    (max 0 (find_best_position_for_song partial_setlist song start_idx end_idx - 3))
                    (min (int (length (list_insert partial_setlist
                            (find_best_position_for_song partial_setlist song start_idx end_idx)
                            song)))
                       (find_best_position_for_song partial_setlist song start_idx end_idx + 4))))
       \<and> (\<forall>q. start_idx \<le> q
               \<and> q < find_best_position_for_song partial_setlist song start_idx end_idx \<longrightarrow>
             calculate_setlist_score
               (py_slice (list_insert partial_setlist q song) (max 0 (q - 3))
                  (min (int (length (list_insert partial_setlist q song))) (q + 4)))
             < calculate_setlist_score
                 (py_slice
                    (list_insert partial_setlist
                       (find_best_position_for_song partial_setlist song start_idx end_idx) song)
                    (max 0 (find_best_position_for_song partial_setlist song start_idx end_idx - 3))
                    (min (int (length (list_insert partial_setlist
                            (find_best_position_for_song partial_setlist song start_idx end_idx)
                            song)))
                       (find_best_position_for_song partial_setlist song start_idx end_idx + 4))))"
proof -
  from scan_positions_upto [OF assms, of partial_setlist song] obtain bp where
    "scan_positions partial_setlist song [start_idx .. end_idx] (None, start_idx)
       = (Some (window_score partial_setlist song bp), bp)"
    and rest: "start_idx \<le> bp \<and> bp \<le> end_idx
       \<and> (\<forall>q. start_idx \<le> q \<and> q \<le> end_idx \<longrightarrow>
              window_score partial_setlist song q \<le> window_score partial_setlist song bp)
       \<and> (\<forall>q. start_idx \<le> q \<and> q < bp \<longrightarrow>
              window_score partial_setlist song q < window_score partial_setlist song bp)"
    by blast
  then have best: "find_best_position_for_song partial_setlist song start_idx end_idx = bp"
    by (simp add: find_best_position_for_song_def)
  show ?thesis
    unfolding best section_to_score_window [symmetric] using rest .
qed

text \<open>
  A song of performer \<open>C\<close> and a setlist of six songs of performers \<open>A A A B B A\<close>. The
  windows of the positions 0 to 6 score \<open>-80, -60, -90, -110, -50, -30, -30\<close>: positions 5
  and 6 tie for the maximum and the smaller one, 5, is returned. Its window leaves out the
  first two songs of the list; scored on the whole list, position 1 would be the best.
\<close>

theorem find_best_position_least_argmax_witness:
  "(0::int) \<le> 6
   \<and> find_best_position_for_song
        [\<lparr>name = ''s1'', performers = {|''A''|}\<rparr>, \<lparr>name = ''s2'', performers = {|''A''|}\<rparr>,
         \<lparr>name = ''s3'', performers = {|''A''|}\<rparr>, \<lparr>name = ''s4'', performers = {|''B''|}\<rparr>,
         \<lparr>name = ''s5'', performers = {|''B''|}\<rparr>, \<lparr>name = ''s6'', performers = {|''A''|}\<rparr>]
        \<lparr>name = ''new'', performers = {|''C''|}\<rparr> 0 6 = 5
   \<and> py_slice (list_insert
        [\<lparr>name = ''s1'', performers = {|''A''|}\<rparr>, \<lparr>name = ''s2'', performers = {|''A''|}\<rparr>,
         \<lparr>name = ''s3'', performers = {|''A''|}\<rparr>, \<lparr>name = ''s4'', performers = {|''B''|}\<rparr>,
         \<lparr>name = ''s5'', performers = {|''B''|}\<rparr>, \<lparr>name = ''s6'', performers = {|''A''|}\<rparr>]
        5 \<lparr>name = ''new'', performers = {|''C''|}\<rparr>) (max 0 (5 - 3))
       (min (int (length (list_insert
        [\<lparr>name = ''s1'', performers = {|''A''|}\<rparr>, \<lparr>name = ''s2'', performers = {|''A''|}\<rparr>,
         \<lparr>name = ''s3'', performers = {|''A''|}\<rparr>, \<lparr>name = ''s4'', performers = {|''B''|}\<rparr>,
         \<lparr>name = ''s5'', performers = {|''B''|}\<rparr>, \<lparr>name = ''s6'', performers = {|''A''|}\<rparr>]
        5 \<lparr>name = ''new'', performers = {|''C''|}\<rparr>))) (5 + 4))
     = [\<lparr>name = ''s3'', performers = {|''A''|}\<rparr>, \<lparr>name = ''s4'', performers = {|''B''|}\<rparr>,
        \<lparr>name = ''s5'', performers = {|''B''|}\<rparr>, \<lparr>name = ''new'', performers = {|''C''|}\<rparr>,
        \<lparr>name = ''s6'', performers = {|''A''|}\<rparr>]
   \<and> ((0::int) \<le> 1 \<and> (1::int) < 5)
   \<and> calculate_setlist_score (py_slice (list_insert
        [\<lparr>name = ''s1'', performers = {|''A''|}\<rparr>, \<lparr>name = ''s2'', performers = {|''A''|}\<rparr>,
         \<lparr>name = ''s3'', performers = {|''A''|}\<rparr>, \<lparr>name = ''s4'', performers = {|''B''|}\<rparr>,
         \<lparr>name = ''s5'', performers = {|''B''|}\<rparr>, \<lparr>name = ''s6'', performers = {|''A''|}\<rparr>]
        1 \<lparr>name = ''new'', performers = {|''C''|}\<rparr>) (max 0 (1 - 3))
       (min (int (length (list_insert
        [\<lparr>name = ''s1'', performers = {|''A''|}\<rparr>, \<lparr>name = ''s2'', performers = {|''A''|}\<rparr>,
         \<lparr>name = ''s3'', performers = {|''A''|}\<rparr>, \<lparr>name = ''s4'', performers = {|''B''|}\<rparr>,
         \<lparr>name = ''s5'', performers = {|''B''|}\<rparr>, \<lparr>name = ''s6'', performers = {|''A''|}\<rparr>]
        1 \<lparr>name = ''new'', performers = {|''C''|}\<rparr>))) (1 + 4)))
     < calculate_setlist_score (py_slice (list_insert
        [\<lparr>name = ''s1'', performers = {|''A''|}\<rparr>, \<lparr>name = ''s2'', performers = {|''A''|}\<rparr>,
         \<lparr>name = ''s3'', performers = {|''A''|}\<rparr>, \<lparr>name = ''s4'', performers = {|''B''|}\<rparr>,
         \<lparr>name = ''s5'', performers = {|''B''|}\<rparr>, \<lparr>name = ''s6'', performers = {|''A''|}\<rparr>]
        5 \<lparr>name = ''new'', performers = {|''C''|}\<rparr>) (max 0 (5 - 3))
       (min (int (length (list_insert
        [\<lparr>name = ''s1'', performers = {|''A''|}\<rparr>, \<lparr>name = ''s2'', performers = {|''A''|}\<rparr>,
         \<lparr>name = ''s3'', performers = {|''A''|}\<rparr>, \<lparr>name = ''s4'', performers = {|''B''|}\<rparr>,
         \<lparr>name = ''s5'', performers = {|''B''|}\<rparr>, \<lparr>name = ''s6'', performers = {|''A''|}\<rparr>]
        5 \<lparr>name = ''new'', performers = {|''C''|}\<rparr>))) (5 + 4)))
   \<and> ((0::int) \<le> 6 \<and> (6::int) \<le> 6)
   \<and> calculate_setlist_score (py_slice (list_insert
        [\<lparr>name = ''s1'', performers = {|''A''|}\<rparr>, \<lparr>name = ''s2'', performers = {|''A''|}\<rparr>,
         \<lparr>name = ''s3'', performers = {|''A''|}\<rparr>, \<lparr>name = ''s4'', performers = {|''B''|}\<rparr>,
         \<lparr>name = ''s5'', performers = {|''B''|}\<rparr>, \<lparr>name = ''s6'', performers = {|''A''|}\<rparr>]
        6 \<lparr>name = ''new'', performers = {|''C''|}\<rparr>) (max 0 (6 - 3))
       (min (int (length (list_insert
        [\<lparr>name = ''s1'', performers = {|''A''|}\<rparr>, \<lparr>name = ''s2'', performers = {|''A''|}\<rparr>,
         \<lparr>name = ''s3'', performers = {|''A''|}\<rparr>, \<lparr>name = ''s4'', performers = {|''B''|}\<rparr>,
         \<lparr>name = ''s5'', performers = {|''B''|}\<rparr>, \<lparr>name = ''s6'', performers = {|''A''|}\<rparr>]
        6 \<lparr>name = ''new'', performers = {|''C''|}\<rparr>))) (6 + 4)))
     = calculate_setlist_score (py_slice (list_insert
        [\<lparr>name = ''s1'', performers = {|''A''|}\<rparr>, \<lparr>name = ''s2'', performers = {|''A''|}\<rparr>,
         \<lparr>name = ''s3'', performers = {|''A''|}\<rparr>, \<lparr>name = ''s4'', performers = {|''B''|}\<rparr>,
         \<lparr>name = ''s5'', performers = {|''B''|}\<rparr>, \<lparr>name = ''s6'', performers = {|''A''|}\<rparr>]
        5 \<lparr>name = ''new'', performers = {|''C''|}\<rparr>) (max 0 (5 - 3))
       (min (int (length (list_insert
        [\<lparr>name = ''s1'', performers = {|''A''|}\<rparr>, \<lparr>name = ''s2'', performers = {|''A''|}\<rparr>,
         \<lparr>name = ''s3'', performers = {|''A''|}\<rparr>, \<lparr>name = ''s4'', performers = {|''B''|}\<rparr>,
         \<lparr>name = ''s5'', performers = {|''B''|}\<rparr>, \<lparr>name = ''s6'', performers = {|''A''|}\<rparr>]
        5 \<lparr>name = ''new'', performers = {|''C''|}\<rparr>))) (5 + 4)))"
proof -
  let ?p = "[\<lparr>name = ''s1'', performers = {|''A''|}\<rparr>, \<lparr>name = ''s2'', performers = {|''A''|}\<rparr>,
             \<lparr>name = ''s3'', performers = {|''A''|}\<rparr>, \<lparr>name = ''s4'', performers = {|''B''|}\<rparr>,
             \<lparr>name = ''s5'', performers = {|''B''|}\<rparr>, \<lparr>name = ''s6'', performers = {|''A''|}\<rparr>]"
  let ?z = "\<lparr>name = ''new'', performers = {|''C''|}\<rparr>"
  let ?w = "\<lambda>q. py_slice (list_insert ?p q ?z) (max 0 (q - 3))
                  (min (int (length (list_insert ?p q ?z))) (q + 4))"
  have bounds: "(0::int) \<le> 6" by simp
  have best: "find_best_position_for_song ?p ?z 0 6 = 5" by code_simp
  note inst = find_best_position_least_argmax [OF bounds, of ?p ?z, unfolded best]
  from inst have "(0::int) \<le> 1 \<and> (1::int) < 5 \<longrightarrow>
                   calculate_setlist_score (?w 1) < calculate_setlist_score (?w 5)"
    by blast
  then have before: "calculate_setlist_score (?w 1) < calculate_setlist_score (?w 5)" by simp
  from inst have "(0::int) \<le> 6 \<and> (6::int) \<le> 6 \<longrightarrow>
                   calculate_setlist_score (?w 6) \<le> calculate_setlist_score (?w 5)"
    by blast
  then have after: "calculate_setlist_score (?w 6) \<le> calculate_setlist_score (?w 5)" by simp
  have window: "?w 5 = [\<lparr>name = ''s3'', performers = {|''A''|}\<rparr>,
                        \<lparr>name = ''s4'', performers = {|''B''|}\<rparr>,
                        \<lparr>name = ''s5'', performers = {|''B''|}\<rparr>,
                        \<lparr>name = ''new'', performers = {|''C''|}\<rparr>,
                        \<lparr>name = ''s6'', performers = {|''A''|}\<rparr>]"
    by code_simp
  have not_less: "\<not> calculate_setlist_score (?w 6) < calculate_setlist_score (?w 5)"
    by code_simp
  with after have tie: "calculate_setlist_score (?w 6) = calculate_setlist_score (?w 5)"
    by linarith
  have range: "(0::int) \<le> 1 \<and> (1::int) < 5" "(0::int) \<le> 6 \<and> (6::int) \<le> 6" by simp_all
  from bounds best window range(1) before range(2) tie show ?thesis
    by (intro conjI) (assumption | simp)+
qed

section \<open>Properties of the builder\<close>

lemma slice_index_le: "slice_index n i \<le> n"
  unfolding slice_index_def by (cases "i < 0") auto

lemma slice_index_nat: "k \<le> n \<Longrightarrow> slice_index n (int k) = k"
  by (simp add: slice_index_def)

lemma length_list_insert: "length (list_insert xs i x) = Suc (length xs)"
  using slice_index_le [of "length xs" i] by (simp add: list_insert_def Let_def)

lemma mset_list_insert: "mset (list_insert xs i x) = add_mset x (mset xs)"
proof -
  have "mset (take k xs) + mset (drop k xs) = mset xs" for k
    by (metis append_take_drop_id mset_append)
  then show ?thesis by (simp add: list_insert_def Let_def)
qed

lemma list_insert_nat:
  "k \<le> length xs \<Longrightarrow> list_insert xs (int k) x = take k xs @ x # drop k xs"
  by (simp add: list_insert_def slice_index_nat)

lemma length_place_songs:
  "length setlist \<le> total_needed \<Longrightarrow>
     length (place_songs setlist remaining) = min total_needed (length setlist + length remaining)"
  by (induction remaining arbitrary: setlist) (auto simp: length_list_insert Let_def)

lemma mset_place_songs:
  "mset (place_songs setlist remaining)
     = mset setlist + mset (take (total_needed - length setlist) remaining)"
proof (induction remaining arbitrary: setlist)
  case Nil
  show ?case by simp
next
  case (Cons song remaining)
  show ?case
  proof (cases "length setlist < total_needed")
    case True
    then have k: "total_needed - length setlist = Suc (18 - length setlist)" by simp
    from True show ?thesis
      by (simp add: Cons.IH Let_def length_list_insert mset_list_insert k)
  next
    case False
    then show ?thesis by simp
  qed
qed

lemma ideal_pos_le:
  "guest_idx < n \<Longrightarrow> (len * (guest_idx + 1)) div (n + 1) \<le> (len::nat)"
proof -
  assume "guest_idx < n"
  then have "len * (guest_idx + 1) \<le> len * (n + 1)" by simp
  then have "(len * (guest_idx + 1)) div (n + 1) \<le> (len * (n + 1)) div (n + 1)"
    by (rule div_le_mono)
  also have "(len * (n + 1)) div (n + 1) = len"
    by (rule div_mult_self_is_m) simp
  finally show ?thesis .
qed

text \<open>
  C6: in the guest loop, while the setlist has fewer than 19 items and the guest index is
  below the number of guests, the guest at that index is inserted at position
  \<open>length setlist * (guest_idx + 1) div (length guest_performances + 1)\<close> of the current
  setlist (a position within the setlist, so the insertion is not clamped), no score is
  computed, and the loop goes on with the guest index advanced by one.
\<close>

theorem guest_placement_step:
  assumes "length setlist < total_needed" and "guest_idx < length guest_performances"
  shows "(length setlist * (guest_idx + 1)) div (length guest_performances + 1) \<le> length setlist
       \<and> place_guests guest_performances setlist guest_idx =
           place_guests guest_performances
             (take ((length setlist * (guest_idx + 1)) div (length guest_performances + 1)) setlist
              @ [guest_performances ! guest_idx]
              @ drop ((length setlist * (guest_idx + 1)) div (length guest_performances + 1)) setlist)
             (guest_idx + 1)"
proof -
  have le: "(length setlist * (guest_idx + 1)) div (length guest_performances + 1) \<le> length setlist"
    using assms(2) by (rule ideal_pos_le)
  have "place_guests guest_performances setlist guest_idx =
          place_guests guest_performances
            (list_insert setlist
               (int ((length setlist * (guest_idx + 1)) div (length guest_performances + 1)))
               (guest_performances ! guest_idx))
            (guest_idx + 1)"
    using assms by (subst place_guests.simps) (simp add: Let_def)
  with le show ?thesis by (simp add: list_insert_nat)
qed

text \<open>One guest placed into a setlist of two songs goes to position \<open>2 * 1 div 2 = 1\<close>.\<close>

theorem guest_placement_step_witness:
  "length [\<lparr>name = ''x'', performers = {|''A''|}\<rparr>, \<lparr>name = ''y'', performers = {|''B''|}\<rparr>]
     < total_needed
   \<and> 0 < length [\<lparr>name = ''g'', performers = {|''Guest Performer''|}\<rparr>]
   \<and> place_guests [\<lparr>name = ''g'', performers = {|''Guest Performer''|}\<rparr>]
        [\<lparr>name = ''x'', performers = {|''A''|}\<rparr>, \<lparr>name = ''y'', performers = {|''B''|}\<rparr>] 0
      = [\<lparr>name = ''x'', performers = {|''A''|}\<rparr>,
         \<lparr>name = ''g'', performers = {|''Guest Performer''|}\<rparr>,
         \<lparr>name = ''y'', performers = {|''B''|}\<rparr>]"
proof -
  let ?s = "[\<lparr>name = ''x'', performers = {|''A''|}\<rparr>, \<lparr>name = ''y'', performers = {|''B''|}\<rparr>]"
  let ?g = "[\<lparr>name = ''g'', performers = {|''Guest Performer''|}\<rparr>]"
  have h1: "length ?s < total_needed" by simp
  have h2: "0 < length ?g" by simp
  have stop: "place_guests ?g xs (Suc 0) = xs" for xs
    by (subst place_guests.simps) simp
  from guest_placement_step [OF h1 h2] show ?thesis by (simp add: stop)
qed

lemma length_place_guests:
  "length setlist \<le> total_needed \<Longrightarrow>
     length (place_guests guest_performances setlist guest_idx)
       = min total_needed (length setlist + (length guest_performances - guest_idx))"
proof (induction guest_performances setlist guest_idx rule: place_guests.induct)
  case (1 guest_performances setlist guest_idx)
  show ?case
  proof (cases "length setlist < total_needed \<and> guest_idx < length guest_performances")
    case True
    let ?next = "list_insert setlist
                   (int ((length setlist * (guest_idx + 1)) div (length guest_performances + 1)))
                   (guest_performances ! guest_idx)"
    have "length (place_guests guest_performances setlist guest_idx)
            = length (place_guests guest_performances ?next (guest_idx + 1))"
      using True by (subst place_guests.simps) (simp add: Let_def)
    also have "\<dots> = min total_needed
                         (length ?next + (length guest_performances - (guest_idx + 1)))"
      using "1.IH" [OF True refl] True by (simp add: length_list_insert)
    also have "\<dots> = min total_needed
                         (length setlist + (length guest_performances - guest_idx))"
      using True by (simp add: length_list_insert) arith
    finally show ?thesis .
  next
    case False
    with "1.prems" show ?thesis
      by (subst place_guests.simps) auto
  qed
qed

lemma mset_place_guests:
  "mset (place_guests guest_performances setlist guest_idx)
     = mset setlist
       + mset (take (total_needed - length setlist) (drop guest_idx guest_performances))"
proof (induction guest_performances setlist guest_idx rule: place_guests.induct)
  case (1 guest_performances setlist guest_idx)
  show ?case
  proof (cases "length setlist < total_needed \<and> guest_idx < length guest_performances")
    case True
    then have k: "total_needed - length setlist = Suc (18 - length setlist)" by arith
    from True have d: "drop guest_idx guest_performances
        = guest_performances ! guest_idx # drop (Suc guest_idx) guest_performances"
      by (simp add: Cons_nth_drop_Suc)
    from "1.IH" [OF True refl] True show ?thesis
      by (subst place_guests.simps)
         (simp add: Let_def length_list_insert mset_list_insert k d)
  next
    case False
    then show ?thesis
      by (subst place_guests.simps) auto
  qed
qed

text \<open>
  C5: whatever was placed from the pool and the guests, the built setlist ends with the
  two anchors, \<open>bouncy\<close> then \<open>this_world\<close>.
\<close>

theorem build_setlist_ends_with_anchors:
  "2 \<le> length (build_setlist shuffled guest_performances bouncy this_world)
   \<and> drop (length (build_setlist shuffled guest_performances bouncy this_world) - 2)
        (build_setlist shuffled guest_performances bouncy this_world)
      = [bouncy, this_world]"
  by (simp add: build_setlist_def Let_def)

text \<open>
  The builder by itself, for any pool it is handed: when the shuffle returns a permutation
  of its input, the setlist built has length
  \<open>min 19 (|available_songs| + |guest_performances|) + 2\<close>, and as a multiset it is the
  first 19 shuffled songs, the guests needed to fill up to 19, and the two songs appended.
\<close>

lemma build_setlist_length_and_items:
  assumes "\<And>r xs. mset (fst (shuffle r xs)) = mset xs"
  shows "length (build_setlist (fst (shuffle r available_songs)) guest_performances
                   bouncy this_world)
           = min total_needed (length available_songs + length guest_performances) + 2
       \<and> mset (build_setlist (fst (shuffle r available_songs)) guest_performances
                 bouncy this_world)
           = mset (take total_needed (fst (shuffle r available_songs)))
             + mset (take (total_needed - length available_songs) guest_performances)
             + {#bouncy, this_world#}"
proof -
  let ?sh = "fst (shuffle r available_songs)"
  have len_sh: "length ?sh = length available_songs"
    using assms [of r available_songs] by (metis size_mset)
  have len_songs: "length (place_songs [] ?sh) = min total_needed (length available_songs)"
    using length_place_songs [of "[]" ?sh] by (simp add: len_sh)
  have "length (build_setlist ?sh guest_performances bouncy this_world)
          = min total_needed (length available_songs + length guest_performances) + 2"
    using length_place_guests [of "place_songs [] ?sh" guest_performances 0]
    by (simp add: build_setlist_def Let_def len_songs)
  moreover have "total_needed - min total_needed (length available_songs)
                   = total_needed - length available_songs" by simp
  then have "mset (build_setlist ?sh guest_performances bouncy this_world)
          = mset (take total_needed ?sh)
            + mset (take (total_needed - length available_songs) guest_performances)
            + {#bouncy, this_world#}"
    by (simp add: build_setlist_def Let_def mset_place_guests mset_place_songs len_songs)
  ultimately show ?thesis by simp
qed

section \<open>Properties of the search\<close>

lemma contains_iff_sublist: "contains sub s \<longleftrightarrow> sublist sub s"
  by (induction s) (auto simp: sublist_Cons_right)

text \<open>
  C4: when no song name contains \<open>Bouncy\<close>, or none contains \<open>This World\<close>,
  \<^verbatim>\<open>generateSetlist\<close> raises its error, whatever the shuffle and the iteration count, and
  the random source is returned in the state it was given: no iteration ran.
\<close>

theorem missing_anchor_fails_before_any_trial:
  assumes "(\<forall>s \<in> set songs. \<not> contains ''Bouncy'' (name s))
         \<or> (\<forall>s \<in> set songs. \<not> contains ''This World'' (name s))"
  shows "generateSetlist shuffle songs guest_performances iterations r = (Inl ValueError, r)"
proof -
  from assms have "find (\<lambda>s. contains ''Bouncy'' (name s)) songs = None
                 \<or> find (\<lambda>s. contains ''This World'' (name s)) songs = None"
    by (auto simp: find_None_iff)
  then show ?thesis
    by (auto simp: generateSetlist_def split: option.splits)
qed

theorem missing_anchor_fails_before_any_trial_witness:
  "((\<forall>s \<in> set [\<lparr>name = ''This World'', performers = {|''A''|}\<rparr>].
        \<not> contains ''Bouncy'' (name s))
    \<or> (\<forall>s \<in> set [\<lparr>name = ''This World'', performers = {|''A''|}\<rparr>].
        \<not> contains ''This World'' (name s)))
   \<and> generateSetlist (\<lambda>r xs. (rev xs, Suc r))
        [\<lparr>name = ''This World'', performers = {|''A''|}\<rparr>] [] 1000 (0::nat)
      = (Inl ValueError, 0)"
proof -
  have h: "(\<forall>s \<in> set [\<lparr>name = ''This World'', performers = {|''A''|}\<rparr>].
              \<not> contains ''Bouncy'' (name s))
         \<or> (\<forall>s \<in> set [\<lparr>name = ''This World'', performers = {|''A''|}\<rparr>].
              \<not> contains ''This World'' (name s))"
    by simp
  from missing_anchor_fails_before_any_trial [OF h, of "\<lambda>r xs. (rev xs, Suc r)" "[]" 1000 0]
  have "generateSetlist (\<lambda>r xs. (rev xs, Suc r))
          [\<lparr>name = ''This World'', performers = {|''A''|}\<rparr>] [] 1000 (0::nat)
        = (Inl ValueError, 0)" .
  with h show ?thesis by (intro conjI)
qed

lemma run_iterations_Suc:
  "run_iterations shuffle available_songs guest_performances bouncy this_world (Suc n) st =
     run_iteration shuffle available_songs guest_performances bouncy this_world
       (run_iterations shuffle available_songs guest_performances bouncy this_world n st)"
  by (induction n arbitrary: st) simp_all

text \<open>
  C8: with the shuffle and its starting state fixed, the best score after \<open>n + 1\<close>
  iterations is at least the best score after the first \<open>n\<close>, and when the score of
  iteration \<open>n + 1\<close> equals the incumbent best score the best setlist stays the one
  recorded earlier.
\<close>

theorem best_score_monotone_and_ties_keep_earlier:
  "(case best_score (run_iterations shuffle available_songs guest_performances bouncy
                       this_world n st) of
      None \<Rightarrow> True
    | Some before \<Rightarrow>
        (case best_score (run_iterations shuffle available_songs guest_performances bouncy
                            this_world (Suc n) st) of
           None \<Rightarrow> False
         | Some after \<Rightarrow> before \<le> after))
   \<and> (best_score (run_iterations shuffle available_songs guest_performances bouncy
                     this_world n st)
        = Some (calculate_setlist_score
                 (build_setlist
                    (fst (shuffle (rng (run_iterations shuffle available_songs
                            guest_performances bouncy this_world n st)) available_songs))
                    guest_performances bouncy this_world))
      \<longrightarrow> best_setlist (run_iterations shuffle available_songs guest_performances bouncy
                          this_world (Suc n) st)
          = best_setlist (run_iterations shuffle available_songs guest_performances bouncy
                            this_world n st))"
proof -
  let ?st = "run_iterations shuffle available_songs guest_performances bouncy this_world n st"
  obtain shuffled r' where sh: "shuffle (rng ?st) available_songs = (shuffled, r')"
    by (cases "shuffle (rng ?st) available_songs")
  show ?thesis
    unfolding run_iterations_Suc
    by (cases "best_score ?st") (simp_all add: run_iteration_def sh Let_def)
qed

text \<open>
  Two songs without common performers, a shuffle that reverses the pool on every second
  call: the second iteration builds a different setlist with the same score 0, and the
  setlist of the first iteration is kept.
\<close>

theorem best_score_monotone_and_ties_keep_earlier_witness:
  "best_score (run_iterations (\<lambda>r xs. (if r then rev xs else xs, \<not> r))
       [\<lparr>name = ''x'', performers = {|''A''|}\<rparr>, \<lparr>name = ''y'', performers = {|''B''|}\<rparr>] []
       \<lparr>name = ''Bouncy'', performers = {|''C''|}\<rparr>
       \<lparr>name = ''This World'', performers = {|''D''|}\<rparr> 1
       \<lparr>best_score = None, best_setlist = None, rng = False\<rparr>)
     = Some (calculate_setlist_score
         [\<lparr>name = ''x'', performers = {|''A''|}\<rparr>, \<lparr>name = ''y'', performers = {|''B''|}\<rparr>,
          \<lparr>name = ''Bouncy'', performers = {|''C''|}\<rparr>,
          \<lparr>name = ''This World'', performers = {|''D''|}\<rparr>])
   \<and> best_setlist (run_iterations (\<lambda>r xs. (if r then rev xs else xs, \<not> r))
       [\<lparr>name = ''x'', performers = {|''A''|}\<rparr>, \<lparr>name = ''y'', performers = {|''B''|}\<rparr>] []
       \<lparr>name = ''Bouncy'', performers = {|''C''|}\<rparr>
       \<lparr>name = ''This World'', performers = {|''D''|}\<rparr> (Suc 1)
       \<lparr>best_score = None, best_setlist = None, rng = False\<rparr>)
     = Some [\<lparr>name = ''y'', performers = {|''B''|}\<rparr>, \<lparr>name = ''x'', performers = {|''A''|}\<rparr>,
             \<lparr>name = ''Bouncy'', performers = {|''C''|}\<rparr>,
             \<lparr>name = ''This World'', performers = {|''D''|}\<rparr>]"
proof -
  let ?sh = "\<lambda>r xs. (if r then rev xs else xs, \<not> r)"
  let ?x = "\<lparr>name = ''x'', performers = {|''A''|}\<rparr>"
  let ?y = "\<lparr>name = ''y'', performers = {|''B''|}\<rparr>"
  let ?b = "\<lparr>name = ''Bouncy'', performers = {|''C''|}\<rparr>"
  let ?t = "\<lparr>name = ''This World'', performers = {|''D''|}\<rparr>"
  let ?st = "run_iterations ?sh [?x, ?y] [] ?b ?t 1
               \<lparr>best_score = None, best_setlist = None, rng = False\<rparr>"
  have first: "?st = \<lparr>best_score = Some 0, best_setlist = Some [?y, ?x, ?b, ?t], rng = True\<rparr>"
    by code_simp
  have second: "build_setlist (fst (?sh True [?x, ?y])) [] ?b ?t = [?x, ?y, ?b, ?t]"
    by code_simp
  have score: "calculate_setlist_score [?x, ?y, ?b, ?t] = 0"
    by code_simp
  have tie: "best_score ?st
      = Some (calculate_setlist_score
                (build_setlist (fst (?sh (rng ?st) [?x, ?y])) [] ?b ?t))"
    unfolding first by (simp only: search.simps second score)
  from best_score_monotone_and_ties_keep_earlier
         [of ?sh "[?x, ?y]" "[]" ?b ?t 1 "\<lparr>best_score = None, best_setlist = None, rng = False\<rparr>"]
       tie
  have "best_setlist (run_iterations ?sh [?x, ?y] [] ?b ?t (Suc 1)
                        \<lparr>best_score = None, best_setlist = None, rng = False\<rparr>)
          = best_setlist ?st"
    by blast
  then show ?thesis unfolding first by (simp add: score)
qed

section \<open>Properties of the grouping\<close>

text \<open>
  What the four slices compute: each is cut off at the end of the setlist, and together
  they hold its first 21 items.
\<close>

lemma grouping_slices_any_length:
  "split_groups (Some s)
     = Inr [take 5 s, take 5 (drop 5 s), take 5 (drop 10 s), take 6 (drop 15 s)]
   \<and> concat [take 5 s, take 5 (drop 5 s), take 5 (drop 10 s), take 6 (drop 15 s)]
     = take 21 s"
proof -
  have idx: "slice_index (length s) (int k) = min k (length s)" for k
    by (simp add: slice_index_def)
  have a: "py_slice s 0 5 = take 5 s"
    using idx [of 0] idx [of 5] by (auto simp add: py_slice_def Let_def min_def)
  have b: "py_slice s 5 10 = take 5 (drop 5 s)"
    using idx [of 5] idx [of 10] by (auto simp add: py_slice_def Let_def min_def)
  have c: "py_slice s 10 15 = take 5 (drop 10 s)"
    using idx [of 10] idx [of 15] by (auto simp add: py_slice_def Let_def min_def)
  have d: "py_slice s 15 21 = take 6 (drop 15 s)"
    using idx [of 15] idx [of 21] by (auto simp add: py_slice_def Let_def min_def)
  have "take 5 s @ take 5 (drop 5 s) @ take 5 (drop 10 s) @ take 6 (drop 15 s) = take 21 s"
    using take_add [of 5 5 s] take_add [of 10 5 s] take_add [of 15 6 s]
    by simp
  then show ?thesis by (simp add: split_groups_def a b c d)
qed

text \<open>
  C1: a best setlist that has not exactly 21 items is to be refused by the grouping. The
  code does not refuse it: for the song list that holds only the two anchors and no
  guests, the setlist built has two items, the grouping of it raises nothing and returns
  one group of two and three empty groups, and so does the whole of
  \<^verbatim>\<open>generateSetlist\<close>, against its docstring (three groups of five, one group of six,
  21 songs in total).
\<close>

theorem short_sequence_is_grouped:
  "length (build_setlist [] [] \<lparr>name = ''Bouncy'', performers = {|''A''|}\<rparr>
             \<lparr>name = ''This World'', performers = {|''A''|}\<rparr>) \<noteq> 21
   \<and> split_groups (Some (build_setlist [] [] \<lparr>name = ''Bouncy'', performers = {|''A''|}\<rparr>
                           \<lparr>name = ''This World'', performers = {|''A''|}\<rparr>))
     = Inr [[\<lparr>name = ''Bouncy'', performers = {|''A''|}\<rparr>,
             \<lparr>name = ''This World'', performers = {|''A''|}\<rparr>], [], [], []]
   \<and> generateSetlist (\<lambda>r xs. (xs, r))
        [\<lparr>name = ''Bouncy'', performers = {|''A''|}\<rparr>,
         \<lparr>name = ''This World'', performers = {|''A''|}\<rparr>] [] 1 (0::nat)
     = (Inr [[\<lparr>name = ''Bouncy'', performers = {|''A''|}\<rparr>,
              \<lparr>name = ''This World'', performers = {|''A''|}\<rparr>], [], [], []], 0)"
  by code_simp

section \<open>Songs that match an anchor\<close>

lemma mset_take_subset: "mset (take n xs) \<subseteq># mset xs"
proof -
  have "mset xs = mset (take n xs) + mset (drop n xs)"
    by (metis append_take_drop_id mset_append)
  then show ?thesis by simp
qed

lemma pool_without_unique_anchors:
  assumes "bouncy \<noteq> this_world"
    and "count_list songs bouncy = 1" and "count_list songs this_world = 1"
  shows "mset songs
           = mset (filter (\<lambda>s. s \<notin> set [bouncy, this_world]) songs) + {#bouncy, this_world#}"
  using assms by (intro multiset_eqI) (auto simp: count_mset)

text \<open>
  When the two anchors found are different songs and each occurs once in the song list,
  the pool that \<^verbatim>\<open>generateSetlist\<close> shuffles is the song list without the two, the setlist
  built from it has \<open>min 19 (|songs| - 2 + |guests|) + 2\<close> items, and no song or guest
  occurs in it more often than in the two lists.
\<close>

lemma trial_when_anchors_are_distinct_and_unique:
  assumes perm: "\<And>r xs. mset (fst (shuffle r xs)) = mset xs"
    and distinct: "bouncy \<noteq> this_world"
    and once: "count_list songs bouncy = 1" "count_list songs this_world = 1"
  shows "length (filter (\<lambda>s. s \<notin> set [bouncy, this_world]) songs) = length songs - 2
       \<and> length (build_setlist
                   (fst (shuffle r (filter (\<lambda>s. s \<notin> set [bouncy, this_world]) songs)))
                   guest_performances bouncy this_world)
           = min total_needed (length songs - 2 + length guest_performances) + 2
       \<and> mset (build_setlist
                 (fst (shuffle r (filter (\<lambda>s. s \<notin> set [bouncy, this_world]) songs)))
                 guest_performances bouncy this_world)
           \<subseteq># mset songs + mset guest_performances"
proof -
  define pool where "pool = filter (\<lambda>s. s \<notin> set [bouncy, this_world]) songs"
  have split: "mset songs = mset pool + {#bouncy, this_world#}"
    unfolding pool_def by (rule pool_without_unique_anchors [OF distinct once])
  from arg_cong [OF split, of size] have len: "length pool = length songs - 2" by simp
  note built = build_setlist_length_and_items
                 [where shuffle = shuffle and r = r and available_songs = pool
                    and guest_performances = guest_performances and bouncy = bouncy
                    and this_world = this_world, OF perm]
  have "mset (take total_needed (fst (shuffle r pool))) \<subseteq># mset pool"
    using mset_take_subset [of total_needed "fst (shuffle r pool)"] by (simp add: perm)
  moreover have "mset (take (total_needed - length pool) guest_performances)
                   \<subseteq># mset guest_performances"
    by (rule mset_take_subset)
  ultimately have "mset (take total_needed (fst (shuffle r pool)))
                   + mset (take (total_needed - length pool) guest_performances)
                   + {#bouncy, this_world#}
                   \<subseteq># mset pool + mset guest_performances + {#bouncy, this_world#}"
    by (intro subset_mset.add_mono) simp_all
  also have "\<dots> = mset songs + mset guest_performances"
    unfolding split by (simp add: ac_simps)
  finally have sub: "mset (build_setlist (fst (shuffle r pool)) guest_performances
                             bouncy this_world)
                  \<subseteq># mset songs + mset guest_performances"
    using built by simp
  from built have "length (build_setlist (fst (shuffle r pool)) guest_performances
                             bouncy this_world)
                     = min total_needed (length songs - 2 + length guest_performances) + 2"
    by (simp add: len)
  with sub len show ?thesis unfolding pool_def by (intro conjI)
qed

text \<open>
  C10: the available pool is to be the song list with the two anchors removed, the
  setlist built is to have \<open>min 19 (|available| + |guests|) + 2\<close> items, and no song is to
  be duplicated or dropped. The code does otherwise on two song lists. A song list of
  \<open>x\<close> and one song whose name contains both \<open>Bouncy\<close> and \<open>This World\<close>: that song is
  found as both anchors and the setlist holds it twice. A song list of five songs with the
  \<open>Bouncy\<close> row given twice: \<^verbatim>\<open>not in\<close> compares by content and removes both rows, so
  the setlist has four items and not the \<open>min 19 (5 - 2) + 2 = 5\<close> of the formula; the second
  row is in no group.
\<close>

theorem anchor_matches_duplicate_and_drop_songs:
  "generateSetlist (\<lambda>r xs. (xs, r))
     [\<lparr>name = ''x'', performers = {|''A''|}\<rparr>,
      \<lparr>name = ''Bouncy This World'', performers = {|''B''|}\<rparr>] [] 1 (0::nat)
     = (Inr [[\<lparr>name = ''x'', performers = {|''A''|}\<rparr>,
              \<lparr>name = ''Bouncy This World'', performers = {|''B''|}\<rparr>,
              \<lparr>name = ''Bouncy This World'', performers = {|''B''|}\<rparr>], [], [], []], 0)
   \<and> count_list
        [\<lparr>name = ''x'', performers = {|''A''|}\<rparr>,
         \<lparr>name = ''Bouncy This World'', performers = {|''B''|}\<rparr>]
        \<lparr>name = ''Bouncy This World'', performers = {|''B''|}\<rparr> = 1
   \<and> generateSetlist (\<lambda>r xs. (xs, r))
        [\<lparr>name = ''a'', performers = {|''A''|}\<rparr>,
         \<lparr>name = ''Bouncy'', performers = {|''B''|}\<rparr>,
         \<lparr>name = ''Bouncy'', performers = {|''B''|}\<rparr>,
         \<lparr>name = ''This World'', performers = {|''C''|}\<rparr>,
         \<lparr>name = ''b'', performers = {|''D''|}\<rparr>] [] 1 (0::nat)
     = (Inr [[\<lparr>name = ''b'', performers = {|''D''|}\<rparr>,
              \<lparr>name = ''a'', performers = {|''A''|}\<rparr>,
              \<lparr>name = ''Bouncy'', performers = {|''B''|}\<rparr>,
              \<lparr>name = ''This World'', performers = {|''C''|}\<rparr>], [], [], []], 0)
   \<and> min total_needed
        (length [\<lparr>name = ''a'', performers = {|''A''|}\<rparr>,
                 \<lparr>name = ''Bouncy'', performers = {|''B''|}\<rparr>,
                 \<lparr>name = ''Bouncy'', performers = {|''B''|}\<rparr>,
                 \<lparr>name = ''This World'', performers = {|''C''|}\<rparr>,
                 \<lparr>name = ''b'', performers = {|''D''|}\<rparr>] - 2 + length ([] :: item list)) + 2
     = 5"
  by code_simp

section \<open>The inputs are left as they were\<close>

lemma keeps_refl: "keeps h h"
  by (simp add: keeps_def)

lemma get_list_set_list:
  "get_list (set_list a xs h) b = (if b = a then xs else get_list h b)"
  by (simp add: get_list_def set_list_def)

lemma fresh_set_list: "fresh (set_list a xs h) = fresh h"
  by (simp add: set_list_def)

lemma keeps_set_list: "keeps h0 h \<Longrightarrow> fresh h0 \<le> a \<Longrightarrow> keeps h0 (set_list a xs h)"
  by (auto simp: keeps_def set_list_def)

lemma keeps_new_list:
  "keeps h0 h \<Longrightarrow> keeps h0 (snd (new_list xs h))"
  by (auto simp: keeps_def new_list_def)

lemma new_list_facts:
  "fst (new_list xs h) = fresh h" "fresh (snd (new_list xs h)) = Suc (fresh h)"
  by (simp_all add: new_list_def)

lemma place_songs_h_returns:
  assumes "setlist \<noteq> remaining" "fresh h0 \<le> setlist" "fresh h0 \<le> remaining"
  shows "keeps h0 h \<Longrightarrow> length (get_list h remaining) = n \<Longrightarrow>
           \<exists>h'. place_songs_h setlist remaining h = Some h' \<and> keeps h0 h' \<and> fresh h' = fresh h"
proof (induction n arbitrary: h)
  case 0
  then show ?case by (subst place_songs_h.simps) simp
next
  case (Suc n)
  show ?case
  proof (cases "length (get_list h setlist) < total_needed")
    case False
    with Suc.prems show ?thesis by (subst place_songs_h.simps) simp
  next
    case True
    let ?song = "hd (get_list h remaining)"
    let ?h1 = "set_list remaining (tl (get_list h remaining)) h"
    have step: "\<exists>h'. place_songs_h setlist remaining (set_list setlist xs ?h1) = Some h'
                  \<and> keeps h0 h' \<and> fresh h' = fresh h" for xs
    proof -
      have "keeps h0 (set_list setlist xs ?h1)"
        using Suc.prems(1) assms by (simp add: keeps_set_list)
      moreover have "length (get_list (set_list setlist xs ?h1) remaining) = n"
        using Suc.prems(2) assms(1) by (simp add: get_list_set_list)
      ultimately show ?thesis
        using Suc.IH [of "set_list setlist xs ?h1"] by (simp add: fresh_set_list)
    qed
    from Suc.prems(2) have ne: "get_list h remaining \<noteq> []" by auto
    show ?thesis
    proof (cases "length (get_list ?h1 setlist) = 0")
      case True
      with \<open>length (get_list h setlist) < total_needed\<close> ne
        step [of "get_list ?h1 setlist @ [?song]"]
      show ?thesis by (subst place_songs_h.simps) (simp add: Let_def)
    next
      case False
      with \<open>length (get_list h setlist) < total_needed\<close> ne
        step [of "list_insert (get_list ?h1 setlist)
                    (find_best_position_for_song (items_of ?h1 (get_list ?h1 setlist))
                       (get_item ?h1 ?song) 0 (int (length (get_list ?h1 setlist)))) ?song"]
      show ?thesis by (subst place_songs_h.simps) (simp add: Let_def)
    qed
  qed
qed

lemma place_guests_h_keeps:
  "keeps h0 h \<Longrightarrow> fresh h0 \<le> setlist \<Longrightarrow>
     keeps h0 (place_guests_h guest_performances setlist guest_idx h)
     \<and> fresh (place_guests_h guest_performances setlist guest_idx h) = fresh h"
proof (induction guest_performances setlist guest_idx h rule: place_guests_h.induct)
  case (1 guest_performances setlist guest_idx h)
  show ?case
  proof (cases "length (get_list h setlist) < total_needed
                  \<and> guest_idx < length (get_list h guest_performances)")
    case True
    with "1.IH" [OF True refl] "1.prems" show ?thesis
      by (subst (1 2) place_guests_h.simps) (simp add: Let_def keeps_set_list fresh_set_list)
  next
    case False
    with "1.prems" show ?thesis
      by (subst (1 2) place_guests_h.simps) auto
  qed
qed

lemma new_list_keeps:
  assumes "new_list xs h = (a, h')"
  shows "a = fresh h" "fresh h' = Suc (fresh h)" "keeps h0 h \<Longrightarrow> keeps h0 h'"
  using assms by (auto simp: new_list_def keeps_def)

lemma run_iteration_h_keeps:
  assumes "keeps h0 (heap st)"
  shows "\<exists>st'. run_iteration_h shuffle available_songs guest_performances bouncy this_world st
                 = Some st' \<and> keeps h0 (heap st')"
proof -
  have below: "fresh h0 \<le> fresh (heap st)" using assms by (simp add: keeps_def)
  obtain shuffled h1 where
    n1: "new_list (get_list (heap st) available_songs) (heap st) = (shuffled, h1)"
    by (cases "new_list (get_list (heap st) available_songs) (heap st)")
  obtain permuted r where sh: "shuffle (rng_h st) (get_list h1 shuffled) = (permuted, r)"
    by (cases "shuffle (rng_h st) (get_list h1 shuffled)")
  obtain setlist h3 where n3: "new_list [] (set_list shuffled permuted h1) = (setlist, h3)"
    by (cases "new_list [] (set_list shuffled permuted h1)")
  obtain remaining h4 where n4: "new_list (get_list h3 shuffled) h3 = (remaining, h4)"
    by (cases "new_list (get_list h3 shuffled) h3")
  have k1: "keeps h0 h1" and s1: "shuffled = fresh (heap st)"
    using new_list_keeps [OF n1] assms by simp_all
  have k2: "keeps h0 (set_list shuffled permuted h1)"
    using k1 below s1 by (simp add: keeps_set_list)
  have k3: "keeps h0 h3" and s3: "setlist = Suc (fresh (heap st))"
    using new_list_keeps [OF n3] new_list_keeps(2) [OF n1] k2 by (simp_all add: fresh_set_list)
  have k4: "keeps h0 h4" and s4: "remaining = Suc (Suc (fresh (heap st)))"
    using new_list_keeps [OF n4] new_list_keeps(2) [OF n3] new_list_keeps(2) [OF n1] k3
    by (simp_all add: fresh_set_list)
  have "setlist \<noteq> remaining" "fresh h0 \<le> setlist" "fresh h0 \<le> remaining"
    using below by (simp_all add: s3 s4)
  from place_songs_h_returns [OF this k4 refl]
  obtain h5 where h5: "place_songs_h setlist remaining h4 = Some h5" and k5: "keeps h0 h5"
    by blast
  let ?h6 = "place_guests_h guest_performances setlist 0 h5"
  let ?h7 = "set_list setlist (get_list ?h6 setlist @ [bouncy, this_world]) ?h6"
  obtain copy h8 where n8: "new_list (get_list ?h7 setlist) ?h7 = (copy, h8)"
    by (cases "new_list (get_list ?h7 setlist) ?h7")
  have k6: "keeps h0 ?h6"
    using place_guests_h_keeps [OF k5 \<open>fresh h0 \<le> setlist\<close>] by blast
  have k7: "keeps h0 ?h7" using k6 \<open>fresh h0 \<le> setlist\<close> by (rule keeps_set_list)
  have k8: "keeps h0 h8" using new_list_keeps(3) [OF n8 k7] .
  show ?thesis
    using k7 k8 by (simp add: run_iteration_h_def n1 sh n3 n4 h5 n8 Let_def)
qed

lemma run_iterations_h_keeps:
  "keeps h0 (heap st) \<Longrightarrow>
     \<exists>st'. run_iterations_h shuffle available_songs guest_performances bouncy this_world n st
             = Some st' \<and> keeps h0 (heap st')"
proof (induction n arbitrary: st)
  case 0
  then show ?case by simp
next
  case (Suc n)
  from run_iteration_h_keeps [OF Suc.prems]
  obtain st1 where
    "run_iteration_h shuffle available_songs guest_performances bouncy this_world st = Some st1"
    "keeps h0 (heap st1)" by blast
  with Suc.IH [of st1] show ?case by simp
qed

lemma split_groups_h_keeps: "keeps h0 h \<Longrightarrow> keeps h0 (snd (split_groups_h best h))"
  by (cases best) (auto simp: split_groups_h_def keeps_def new_list_def Let_def)

lemma generateSetlist_h_keeps:
  "\<exists>result r' h'.
      generateSetlist_h shuffle songs guest_performances iterations r h = Some (result, r', h')
      \<and> keeps h h'"
proof (cases "find (\<lambda>s. contains ''Bouncy'' (name (get_item h s))) (get_list h songs)")
  case None
  then show ?thesis by (simp add: generateSetlist_h_def keeps_refl)
next
  case bouncy: (Some bouncy)
  show ?thesis
  proof (cases "find (\<lambda>s. contains ''This World'' (name (get_item h s))) (get_list h songs)")
    case None
    with bouncy show ?thesis by (simp add: generateSetlist_h_def keeps_refl)
  next
    case (Some this_world)
    let ?pool = "filter (\<lambda>s. \<not> py_in h s [bouncy, this_world]) (get_list h songs)"
    have "keeps h (snd (new_list ?pool h))" by (simp add: keeps_new_list keeps_refl)
    from run_iterations_h_keeps [of h "\<lparr>best_score_h = None, best_setlist_h = None,
           rng_h = r, heap = snd (new_list ?pool h)\<rparr>" shuffle "fst (new_list ?pool h)"
           guest_performances bouncy this_world "nat iterations"] this
    obtain st where
      st: "run_iterations_h shuffle (fst (new_list ?pool h)) guest_performances bouncy
             this_world (nat iterations)
             \<lparr>best_score_h = None, best_setlist_h = None, rng_h = r,
              heap = snd (new_list ?pool h)\<rparr> = Some st"
      and "keeps h (heap st)" by auto
    then have "keeps h (snd (split_groups_h (best_setlist_h st) (heap st)))"
      by (simp add: split_groups_h_keeps)
    with bouncy Some st show ?thesis
      by (simp add: generateSetlist_h_def split_beta Let_def)
  qed
qed

text \<open>
  C9: a call of \<^verbatim>\<open>generateSetlist\<close> on the list objects \<open>songs\<close> and
  \<open>guest_performances\<close> of a store returns, and in the store it leaves both list objects
  hold what they held before and every song dictionary (name and performer set) is as it
  was: all writes go to list objects allocated during the call.
\<close>

theorem inputs_not_mutated:
  assumes "songs < fresh h" and "guest_performances < fresh h"
  shows "\<exists>result r' h'.
           generateSetlist_h shuffle songs guest_performances iterations r h
             = Some (result, r', h')
           \<and> list_objs h' songs = list_objs h songs
           \<and> list_objs h' guest_performances = list_objs h guest_performances
           \<and> dict_objs h' = dict_objs h"
proof -
  from generateSetlist_h_keeps [of shuffle songs guest_performances iterations r h]
  obtain result r' h' where
    "generateSetlist_h shuffle songs guest_performances iterations r h = Some (result, r', h')"
    and "keeps h h'" by blast
  with assms show ?thesis by (auto simp: keeps_def)
qed

text \<open>
  A store with a list of four songs at reference 0 and a list of one guest at reference
  1: after two iterations both list objects are as before.
\<close>

theorem inputs_not_mutated_witness:
  "(0::nat) < fresh \<lparr>list_objs = [0 \<mapsto> [10, 11, 12, 13], 1 \<mapsto> [14]],
                     dict_objs = [10 \<mapsto> \<lparr>name = ''x'', performers = {|''A''|}\<rparr>,
                                  11 \<mapsto> \<lparr>name = ''Bouncy'', performers = {|''C''|}\<rparr>,
                                  12 \<mapsto> \<lparr>name = ''y'', performers = {|''A''|}\<rparr>,
                                  13 \<mapsto> \<lparr>name = ''This World'', performers = {|''C''|}\<rparr>,
                                  14 \<mapsto> \<lparr>name = ''g'', performers = {|''Guest Performer''|}\<rparr>],
                     fresh = 20\<rparr>
   \<and> (1::nat) < fresh \<lparr>list_objs = [0 \<mapsto> [10, 11, 12, 13], 1 \<mapsto> [14]],
                     dict_objs = [10 \<mapsto> \<lparr>name = ''x'', performers = {|''A''|}\<rparr>,
                                  11 \<mapsto> \<lparr>name = ''Bouncy'', performers = {|''C''|}\<rparr>,
                                  12 \<mapsto> \<lparr>name = ''y'', performers = {|''A''|}\<rparr>,
                                  13 \<mapsto> \<lparr>name = ''This World'', performers = {|''C''|}\<rparr>,
                                  14 \<mapsto> \<lparr>name = ''g'', performers = {|''Guest Performer''|}\<rparr>],
                     fresh = 20\<rparr>
   \<and> (\<exists>result r' h'.
        generateSetlist_h (\<lambda>r xs. (rev xs, Suc r)) 0 1 2 (0::nat)
          \<lparr>list_objs = [0 \<mapsto> [10, 11, 12, 13], 1 \<mapsto> [14]],
           dict_objs = [10 \<mapsto> \<lparr>name = ''x'', performers = {|''A''|}\<rparr>,
                        11 \<mapsto> \<lparr>name = ''Bouncy'', performers = {|''C''|}\<rparr>,
                        12 \<mapsto> \<lparr>name = ''y'', performers = {|''A''|}\<rparr>,
                        13 \<mapsto> \<lparr>name = ''This World'', performers = {|''C''|}\<rparr>,
                        14 \<mapsto> \<lparr>name = ''g'', performers = {|''Guest Performer''|}\<rparr>],
           fresh = 20\<rparr> = Some (result, r', h')
        \<and> list_objs h' 0 = Some [10, 11, 12, 13] \<and> list_objs h' 1 = Some [14])"
proof -
  let ?h = "\<lparr>list_objs = [0 \<mapsto> [10, 11, 12, 13], 1 \<mapsto> [14]],
             dict_objs = [10 \<mapsto> \<lparr>name = ''x'', performers = {|''A''|}\<rparr>,
                          11 \<mapsto> \<lparr>name = ''Bouncy'', performers = {|''C''|}\<rparr>,
                          12 \<mapsto> \<lparr>name = ''y'', performers = {|''A''|}\<rparr>,
                          13 \<mapsto> \<lparr>name = ''This World'', performers = {|''C''|}\<rparr>,
                          14 \<mapsto> \<lparr>name = ''g'', performers = {|''Guest Performer''|}\<rparr>],
             fresh = 20\<rparr>"
  have a: "(0::nat) < fresh ?h" and b: "(1::nat) < fresh ?h" by simp_all
  from inputs_not_mutated [OF a b, of "\<lambda>r xs. (rev xs, Suc r)" 2 0]
  obtain result r' h' where
    "generateSetlist_h (\<lambda>r xs. (rev xs, Suc r)) 0 1 2 (0::nat) ?h = Some (result, r', h')"
    "list_objs h' 0 = list_objs ?h 0" "list_objs h' 1 = list_objs ?h 1"
    by blast
  then have "\<exists>result r' h'.
      generateSetlist_h (\<lambda>r xs. (rev xs, Suc r)) 0 1 2 (0::nat) ?h = Some (result, r', h')
      \<and> list_objs h' 0 = Some [10, 11, 12, 13] \<and> list_objs h' 1 = Some [14]"
    by (intro exI [of _ result] exI [of _ r'] exI [of _ h']) simp
  with a b show ?thesis by (intro conjI)
qed

section \<open>The store program and the list program agree\<close>

lemma get_item_dict_objs:
  assumes "dict_objs h' = dict_objs h"
  shows "get_item h' = get_item h"
  unfolding get_item_def assms by (rule refl)

lemma items_of_dict_objs:
  assumes "dict_objs h' = dict_objs h"
  shows "items_of h' = items_of h"
  unfolding items_of_def get_item_dict_objs [OF assms] by (rule refl)

lemma map_list_insert: "map f (list_insert xs i x) = list_insert (map f xs) i (f x)"
  by (simp add: list_insert_def Let_def take_map drop_map)

lemma map_py_slice: "map f (py_slice xs lo hi) = py_slice (map f xs) lo hi"
  by (simp add: py_slice_def Let_def take_map drop_map)

lemma dict_objs_set_list: "dict_objs (set_list a xs h) = dict_objs h"
  by (simp add: set_list_def)

lemma list_objs_set_list_other: "b \<noteq> a \<Longrightarrow> list_objs (set_list a xs h) b = list_objs h b"
  by (simp add: set_list_def)

lemma place_songs_h_refines:
  assumes "setlist \<noteq> remaining"
  shows "length (get_list h remaining) = n \<Longrightarrow>
           \<exists>h'. place_songs_h setlist remaining h = Some h'
              \<and> dict_objs h' = dict_objs h \<and> fresh h' = fresh h
              \<and> (\<forall>a. a \<noteq> setlist \<and> a \<noteq> remaining \<longrightarrow> list_objs h' a = list_objs h a)
              \<and> items_of h (get_list h' setlist)
                  = place_songs (items_of h (get_list h setlist))
                      (items_of h (get_list h remaining))"
proof (induction n arbitrary: h)
  case 0
  then show ?case by (subst place_songs_h.simps) (simp add: items_of_def)
next
  case (Suc n)
  then obtain song rest where rem: "get_list h remaining = song # rest" and rest: "length rest = n"
    by (cases "get_list h remaining") auto
  show ?case
  proof (cases "length (get_list h setlist) < total_needed")
    case False
    then show ?thesis
      by (subst place_songs_h.simps) (simp add: rem items_of_def)
  next
    case True
    let ?h1 = "set_list remaining rest h"
    let ?sl = "get_list h setlist"
    have sl1: "get_list ?h1 setlist = ?sl"
      using assms by (simp add: get_list_set_list)
    have it1: "items_of ?h1 = items_of h" "get_item ?h1 = get_item h"
      by (rule items_of_dict_objs get_item_dict_objs, rule dict_objs_set_list)+
    define new where "new =
      (if length ?sl = 0 then ?sl @ [song]
       else list_insert ?sl (find_best_position_for_song (items_of h ?sl) (get_item h song) 0
              (int (length ?sl))) song)"
    let ?h2 = "set_list setlist new ?h1"
    have unfold: "place_songs_h setlist remaining h = place_songs_h setlist remaining ?h2"
      using True by (subst place_songs_h.simps) (simp add: rem Let_def sl1 it1 new_def)
    have it2: "items_of ?h2 = items_of h"
      by (rule items_of_dict_objs) (simp only: dict_objs_set_list)
    have rem2: "get_list ?h2 remaining = rest" and sl2: "get_list ?h2 setlist = new"
      using assms by (simp_all add: get_list_set_list)
    from Suc.IH [of ?h2] rest rem2 obtain h' where
      run: "place_songs_h setlist remaining ?h2 = Some h'"
      and d: "dict_objs h' = dict_objs ?h2" and f: "fresh h' = fresh ?h2"
      and others: "\<forall>a. a \<noteq> setlist \<and> a \<noteq> remaining \<longrightarrow> list_objs h' a = list_objs ?h2 a"
      and res: "items_of ?h2 (get_list h' setlist)
                  = place_songs (items_of ?h2 (get_list ?h2 setlist))
                      (items_of ?h2 (get_list ?h2 remaining))"
      by auto
    have pure: "place_songs (items_of h ?sl) (items_of h (song # rest))
                  = place_songs (items_of h new) (items_of h rest)"
      using True by (simp add: items_of_def new_def Let_def map_list_insert)
    have "items_of h (get_list h' setlist)
            = place_songs (items_of h ?sl) (items_of h (get_list h remaining))"
      using res by (simp add: it2 rem2 sl2 pure rem)
    moreover have "\<forall>a. a \<noteq> setlist \<and> a \<noteq> remaining \<longrightarrow> list_objs h' a = list_objs h a"
      using others by (simp add: list_objs_set_list_other)
    ultimately show ?thesis
      using run d f by (simp add: unfold dict_objs_set_list fresh_set_list)
  qed
qed


lemma place_guests_h_refines:
  "guest_performances \<noteq> setlist \<Longrightarrow>
     dict_objs (place_guests_h guest_performances setlist guest_idx h) = dict_objs h
     \<and> fresh (place_guests_h guest_performances setlist guest_idx h) = fresh h
     \<and> (\<forall>a. a \<noteq> setlist \<longrightarrow>
           list_objs (place_guests_h guest_performances setlist guest_idx h) a = list_objs h a)
     \<and> items_of h (get_list (place_guests_h guest_performances setlist guest_idx h) setlist)
         = place_guests (items_of h (get_list h guest_performances))
             (items_of h (get_list h setlist)) guest_idx"
proof (induction guest_performances setlist guest_idx h rule: place_guests_h.induct)
  case (1 guest_performances setlist guest_idx h)
  let ?g = "get_list h guest_performances"
  let ?sl = "get_list h setlist"
  show ?case
  proof (cases "length ?sl < total_needed \<and> guest_idx < length ?g")
    case False
    then show ?thesis
      by (subst (1 2 3 4) place_guests_h.simps, subst place_guests.simps)
         (auto simp: items_of_def)
  next
    case True
    define new where
      "new = list_insert ?sl (int ((length ?sl * (guest_idx + 1)) div (length ?g + 1)))
               (?g ! guest_idx)"
    define h1 where "h1 = set_list setlist new h"
    have unfold: "place_guests_h guest_performances setlist guest_idx h
                    = place_guests_h guest_performances setlist (guest_idx + 1) h1"
      using True by (subst place_guests_h.simps) (simp add: Let_def h1_def new_def)
    have d1: "dict_objs h1 = dict_objs h" and f1: "fresh h1 = fresh h"
      by (simp_all add: h1_def dict_objs_set_list fresh_set_list)
    have it: "items_of h1 = items_of h"
      using d1 by (rule items_of_dict_objs)
    have g1: "get_list h1 guest_performances = ?g" and s1: "get_list h1 setlist = new"
      using "1.prems" by (simp_all add: h1_def get_list_set_list)
    have o1: "a \<noteq> setlist \<Longrightarrow> list_objs h1 a = list_objs h a" for a
      by (simp add: h1_def list_objs_set_list_other)
    have pure: "place_guests (items_of h ?g) (items_of h ?sl) guest_idx
                  = place_guests (items_of h ?g) (items_of h new) (guest_idx + 1)"
      using True
      by (subst place_guests.simps) (simp add: items_of_def Let_def map_list_insert new_def)
    have ih: "dict_objs (place_guests_h guest_performances setlist (guest_idx + 1) h1)
                = dict_objs h1
      \<and> fresh (place_guests_h guest_performances setlist (guest_idx + 1) h1) = fresh h1
      \<and> (\<forall>a. a \<noteq> setlist \<longrightarrow>
            list_objs (place_guests_h guest_performances setlist (guest_idx + 1) h1) a
              = list_objs h1 a)
      \<and> items_of h1 (get_list (place_guests_h guest_performances setlist (guest_idx + 1) h1)
                        setlist)
          = place_guests (items_of h1 (get_list h1 guest_performances))
              (items_of h1 (get_list h1 setlist)) (guest_idx + 1)"
      using "1.IH" [OF True refl "1.prems"] unfolding h1_def new_def .
    show ?thesis
      unfolding unfold using ih o1 by (simp only: it g1 s1 pure d1 f1) simp
  qed
qed


lemma items_of_simps:
  "items_of h [] = []" "items_of h (a # xs) = get_item h a # items_of h xs"
  "items_of h (xs @ ys) = items_of h xs @ items_of h ys"
  by (simp_all add: items_of_def)

lemma get_list_cong: "list_objs h' a = list_objs h a \<Longrightarrow> get_list h' a = get_list h a"
  by (simp add: get_list_def)

lemma new_list_result:
  assumes "new_list xs h = (a, h')"
  shows "a = fresh h" "fresh h' = Suc (fresh h)" "dict_objs h' = dict_objs h"
    "get_list h' a = xs" "\<And>b. b \<noteq> a \<Longrightarrow> list_objs h' b = list_objs h b"
  using assms by (auto simp: new_list_def get_list_def)

lemma run_iteration_h_refines:
  assumes sh: "\<And>r xs. shuffle_items r (items_of base xs)
                 = (items_of base (fst (shuffle r xs)), snd (shuffle r xs))"
    and ag: "agrees base st stp"
    and av: "available_songs < fresh (heap st)"
    and gp: "guest_performances < fresh (heap st)"
  shows "\<exists>st'. run_iteration_h shuffle available_songs guest_performances bouncy this_world st
                 = Some st'
           \<and> keeps (heap st) (heap st')
           \<and> agrees base st'
               (run_iteration shuffle_items
                  (items_of base (get_list (heap st) available_songs))
                  (items_of base (get_list (heap st) guest_performances))
                  (get_item base bouncy) (get_item base this_world) stp)"
proof -
  let ?h = "heap st"
  let ?avail = "get_list ?h available_songs"
  let ?guests = "get_list ?h guest_performances"
  from ag have d0: "dict_objs ?h = dict_objs base"
    and bs: "best_score_h st = best_score stp" and rg: "rng_h st = rng stp"
    and bl: "case best_setlist_h st of
               None \<Rightarrow> best_setlist stp = None
             | Some b \<Rightarrow> b < fresh ?h \<and> best_setlist stp = Some (items_of base (get_list ?h b))"
    by (simp_all add: agrees_def)
  obtain shuffled h1 where n1: "new_list ?avail ?h = (shuffled, h1)"
    by (cases "new_list ?avail ?h")
  obtain permuted r where shf: "shuffle (rng_h st) (get_list h1 shuffled) = (permuted, r)"
    by (cases "shuffle (rng_h st) (get_list h1 shuffled)")
  define h2 where "h2 = set_list shuffled permuted h1"
  obtain setlist h3 where n3: "new_list [] h2 = (setlist, h3)"
    by (cases "new_list [] h2")
  obtain remaining h4 where n4: "new_list (get_list h3 shuffled) h3 = (remaining, h4)"
    by (cases "new_list (get_list h3 shuffled) h3")
  note r1 = new_list_result [OF n1] and r3 = new_list_result [OF n3]
    and r4 = new_list_result [OF n4]
  have f2: "fresh h2 = Suc (fresh ?h)" by (simp add: h2_def fresh_set_list r1)
  have refs: "shuffled = fresh ?h" "setlist = Suc (fresh ?h)" "remaining = Suc (Suc (fresh ?h))"
    using r1(1) r3(1) r4(1) r3(2) f2 by simp_all
  have ne: "setlist \<noteq> remaining" "guest_performances \<noteq> setlist"
    "guest_performances \<noteq> remaining" "guest_performances \<noteq> shuffled"
    "shuffled \<noteq> setlist" "shuffled \<noteq> remaining"
    using gp by (simp_all add: refs)
  have sh1: "get_list h1 shuffled = ?avail" by (rule r1(4))
  have perm: "permuted = fst (shuffle (rng_h st) ?avail)" and r: "r = snd (shuffle (rng_h st) ?avail)"
    using shf by (simp_all add: sh1)
  have sh3: "get_list h3 shuffled = permuted"
    using r3(5) [of shuffled] ne by (simp add: get_list_def h2_def set_list_def)
  have d4: "dict_objs h4 = dict_objs base"
    by (simp add: r4(3) r3(3) h2_def dict_objs_set_list r1(3) d0)
  have sl4: "get_list h4 setlist = []"
    using r4(5) [of setlist] r3(4) ne by (simp add: get_list_def)
  have rem4: "get_list h4 remaining = permuted"
    using r4(4) by (simp add: sh3)
  have g4: "get_list h4 guest_performances = ?guests"
    using r4(5) [of guest_performances] r3(5) [of guest_performances]
      r1(5) [of guest_performances] ne
    by (simp add: get_list_def h2_def set_list_def)
  have k4: "keeps ?h h4"
    using new_list_keeps(3) [OF n4, of ?h] new_list_keeps(3) [OF n3, of ?h]
      new_list_keeps(3) [OF n1, of ?h] keeps_refl [of ?h]
      keeps_set_list [of ?h h1 shuffled permuted]
    by (simp add: h2_def refs)
  from place_songs_h_refines [OF ne(1) refl, of h4] obtain h5 where
    h5: "place_songs_h setlist remaining h4 = Some h5"
    and d5: "dict_objs h5 = dict_objs h4" and f5: "fresh h5 = fresh h4"
    and o5: "\<forall>a. a \<noteq> setlist \<and> a \<noteq> remaining \<longrightarrow> list_objs h5 a = list_objs h4 a"
    and s5: "items_of h4 (get_list h5 setlist)
               = place_songs (items_of h4 (get_list h4 setlist))
                   (items_of h4 (get_list h4 remaining))"
    by blast
  have i4: "items_of h4 = items_of base" using d4 by (rule items_of_dict_objs)
  have i5: "items_of h5 = items_of base"
    by (rule items_of_dict_objs) (simp only: d5 d4)
  have g5: "get_list h5 guest_performances = ?guests"
    using o5 ne g4 by (simp add: get_list_def)
  have k5: "keeps ?h h5"
    using k4 o5 d5 f5 by (auto simp: keeps_def refs)
  define h6 where "h6 = place_guests_h guest_performances setlist 0 h5"
  from place_guests_h_refines [OF ne(2), of 0 h5]
  have d6: "dict_objs h6 = dict_objs h5" and f6: "fresh h6 = fresh h5"
    and o6: "\<forall>a. a \<noteq> setlist \<longrightarrow> list_objs h6 a = list_objs h5 a"
    and s6: "items_of h5 (get_list h6 setlist)
               = place_guests (items_of h5 (get_list h5 guest_performances))
                   (items_of h5 (get_list h5 setlist)) 0"
    unfolding h6_def by blast+
  define final where "final = get_list h6 setlist @ [bouncy, this_world]"
  define h7 where "h7 = set_list setlist final h6"
  have d7: "dict_objs h7 = dict_objs base"
    by (simp add: h7_def dict_objs_set_list d6 d5 d4)
  have i7: "items_of h7 = items_of base" using d7 by (rule items_of_dict_objs)
  have k7: "keeps ?h h7"
    using k5 o6 d6 f6 by (auto simp: keeps_def refs h7_def set_list_def)
  have sl7: "get_list h7 setlist = final" by (simp add: h7_def get_list_set_list)
  have built: "items_of base final
                 = build_setlist (fst (shuffle_items (rng stp) (items_of base ?avail)))
                     (items_of base ?guests) (get_item base bouncy) (get_item base this_world)"
  proof -
    have "items_of base (get_list h5 setlist)
            = place_songs [] (items_of base permuted)"
      using s5 by (simp add: i4 sl4 rem4 items_of_def)
    then have "items_of base (get_list h6 setlist)
            = place_guests (items_of base ?guests) (place_songs [] (items_of base permuted)) 0"
      using s6 by (simp add: i5 g5)
    then show ?thesis
      by (simp add: final_def build_setlist_def Let_def sh perm rg [symmetric] items_of_simps)
  qed
  let ?stp' = "run_iteration shuffle_items (items_of base ?avail) (items_of base ?guests)
                 (get_item base bouncy) (get_item base this_world) stp"
  let ?score = "calculate_setlist_score (items_of base final)"
  show ?thesis
  proof (cases "exceeds ?score (best_score stp)")
    case True
    obtain copy h8 where n8: "new_list final h7 = (copy, h8)"
      by (cases "new_list final h7")
    note r8 = new_list_result [OF n8]
    have run: "run_iteration_h shuffle available_songs guest_performances bouncy this_world st
                 = Some \<lparr>best_score_h = Some ?score, best_setlist_h = Some copy,
                         rng_h = r, heap = h8\<rparr>"
      using True
      by (simp add: run_iteration_h_def n1 shf h2_def [symmetric] n3 n4 h5 Let_def
            h6_def [symmetric] final_def [symmetric] h7_def [symmetric] sl7 i7 n8 bs)
    have pure: "?stp' = \<lparr>best_score = Some ?score, best_setlist = Some (items_of base final),
                         rng = r\<rparr>"
      using True by (simp add: run_iteration_def split_beta Let_def built sh r rg)
    have "keeps ?h h8" using new_list_keeps(3) [OF n8 k7] .
    moreover have "agrees base \<lparr>best_score_h = Some ?score, best_setlist_h = Some copy,
                               rng_h = r, heap = h8\<rparr> ?stp'"
    proof -
      have "copy < fresh h8" using r8(1,2) by simp
      then show ?thesis unfolding pure by (simp add: agrees_def r8(3,4) d7)
    qed
    ultimately show ?thesis using run by simp
  next
    case False
    have run: "run_iteration_h shuffle available_songs guest_performances bouncy this_world st
                 = Some (st\<lparr>rng_h := r, heap := h7\<rparr>)"
      using False
      by (simp add: run_iteration_h_def n1 shf h2_def [symmetric] n3 n4 h5 Let_def
            h6_def [symmetric] final_def [symmetric] h7_def [symmetric] sl7 i7 bs)
    have pure: "?stp' = stp\<lparr>rng := r\<rparr>"
      using False by (simp add: run_iteration_def split_beta Let_def built sh r rg)
    have "agrees base (st\<lparr>rng_h := r, heap := h7\<rparr>) ?stp'"
    proof (cases "best_setlist_h st")
      case None
      with bl show ?thesis by (simp add: pure agrees_def d7 bs)
    next
      case (Some b)
      with bl have b: "b < fresh ?h" "best_setlist stp = Some (items_of base (get_list ?h b))"
        by simp_all
      from k7 b(1) have "list_objs h7 b = list_objs ?h b" "b < fresh h7"
        by (auto simp: keeps_def)
      then have "get_list h7 b = get_list ?h b" "b < fresh h7"
        by (simp_all add: get_list_def)
      with Some b show ?thesis by (simp add: pure agrees_def d7 bs)
    qed
    with k7 run show ?thesis by simp
  qed
qed


lemma run_iterations_h_refines:
  assumes sh: "\<And>r xs. shuffle_items r (items_of base xs)
                 = (items_of base (fst (shuffle r xs)), snd (shuffle r xs))"
  shows "agrees base st stp \<Longrightarrow> available_songs < fresh (heap st) \<Longrightarrow>
         guest_performances < fresh (heap st) \<Longrightarrow>
           \<exists>st'. run_iterations_h shuffle available_songs guest_performances bouncy this_world
                    n st = Some st'
              \<and> agrees base st'
                  (run_iterations shuffle_items
                     (items_of base (get_list (heap st) available_songs))
                     (items_of base (get_list (heap st) guest_performances))
                     (get_item base bouncy) (get_item base this_world) n stp)"
proof (induction n arbitrary: st stp)
  case 0
  then show ?case by simp
next
  case (Suc n)
  let ?stp1 = "run_iteration shuffle_items
                 (items_of base (get_list (heap st) available_songs))
                 (items_of base (get_list (heap st) guest_performances))
                 (get_item base bouncy) (get_item base this_world) stp"
  from run_iteration_h_refines
         [where shuffle_items = shuffle_items and shuffle = shuffle and base = base
            and bouncy = bouncy and this_world = this_world, OF sh Suc.prems]
  obtain st1 where
    run: "run_iteration_h shuffle available_songs guest_performances bouncy this_world st
            = Some st1"
    and k: "keeps (heap st) (heap st1)" and ag: "agrees base st1 ?stp1"
    by blast
  from k Suc.prems(2,3) have lt: "available_songs < fresh (heap st1)"
      "guest_performances < fresh (heap st1)"
    and same: "list_objs (heap st1) available_songs = list_objs (heap st) available_songs"
      "list_objs (heap st1) guest_performances = list_objs (heap st) guest_performances"
    by (auto simp: keeps_def)
  have lists: "get_list (heap st1) available_songs = get_list (heap st) available_songs"
    "get_list (heap st1) guest_performances = get_list (heap st) guest_performances"
    using same by (simp_all add: get_list_def)
  from Suc.IH [OF ag lt] show ?case by (simp add: run lists)
qed

lemma split_groups_h_refines:
  assumes "case best of None \<Rightarrow> bestp = None
           | Some b \<Rightarrow> b < fresh h \<and> bestp = Some (items_of base (get_list h b))"
  shows "map_sum id (map (\<lambda>g. items_of base (get_list (snd (split_groups_h best h)) g)))
           (fst (split_groups_h best h)) = split_groups bestp"
proof (cases best)
  case None
  with assms show ?thesis by (simp add: split_groups_h_def split_groups_def)
next
  case (Some b)
  with assms have b: "b < fresh h" "bestp = Some (items_of base (get_list h b))" by simp_all
  have slices: "items_of base (py_slice xs lo hi) = py_slice (items_of base xs) lo hi" for xs lo hi
    by (simp add: items_of_def map_py_slice)
  from b(1) show ?thesis
    by (simp add: Some b(2) split_groups_h_def split_groups_def new_list_def get_list_def
          Let_def slices [unfolded get_list_def])
qed

lemma find_map_items: "find P (map f xs) = map_option f (find (\<lambda>x. P (f x)) xs)"
  by (induction xs) simp_all

lemma filter_py_in:
  "items_of h (filter (\<lambda>s. \<not> py_in h s [bouncy, this_world]) xs)
     = filter (\<lambda>s. s \<notin> set [get_item h bouncy, get_item h this_world]) (items_of h xs)"
  by (induction xs) (auto simp: items_of_def py_in_def)

text \<open>
  The program on the store computes what the program on lists computes: when the shuffle
  of item lists permutes as the shuffle of reference lists does, and the guest list is an
  allocated object, the call on the store returns, and the groups and the state of the
  random source it returns are those of \<open>generateSetlist\<close> on the contents of the two
  input lists.
\<close>

lemma generateSetlist_h_refines:
  assumes sh: "\<And>r xs. shuffle_items r (items_of h xs)
                 = (items_of h (fst (shuffle r xs)), snd (shuffle r xs))"
    and gp: "guest_performances < fresh h"
  shows "\<exists>result r' h'.
           generateSetlist_h shuffle songs guest_performances iterations r h
             = Some (result, r', h')
           \<and> (map_sum id (map (\<lambda>g. items_of h (get_list h' g))) result, r')
             = generateSetlist shuffle_items (items_of h (get_list h songs))
                 (items_of h (get_list h guest_performances)) iterations r"
proof -
  let ?songs = "get_list h songs"
  let ?fb = "find (\<lambda>s. contains ''Bouncy'' (name (get_item h s))) ?songs"
  let ?ft = "find (\<lambda>s. contains ''This World'' (name (get_item h s))) ?songs"
  have fb: "find (\<lambda>s. contains ''Bouncy'' (name s)) (items_of h ?songs)
              = map_option (get_item h) ?fb"
    and ft: "find (\<lambda>s. contains ''This World'' (name s)) (items_of h ?songs)
              = map_option (get_item h) ?ft"
    by (simp_all add: items_of_def find_map_items)
  show ?thesis
  proof (cases "?fb = None \<or> ?ft = None")
    case True
    then show ?thesis
      by (auto simp: generateSetlist_h_def generateSetlist_def fb ft split: option.splits)
  next
    case False
    then obtain bouncy this_world where b: "?fb = Some bouncy" and t: "?ft = Some this_world"
      by auto
    let ?pool = "filter (\<lambda>s. \<not> py_in h s [bouncy, this_world]) ?songs"
    obtain available_songs h1 where n1: "new_list ?pool h = (available_songs, h1)"
      by (cases "new_list ?pool h")
    note r1 = new_list_result [OF n1]
    let ?st = "\<lparr>best_score_h = None, best_setlist_h = None, rng_h = r, heap = h1\<rparr>"
    let ?stp = "\<lparr>best_score = None, best_setlist = None, rng = r\<rparr>"
    have ag: "agrees h ?st ?stp" by (simp add: agrees_def r1(3))
    have lt: "available_songs < fresh (heap ?st)" "guest_performances < fresh (heap ?st)"
      using gp by (simp_all add: r1(1,2))
    have av: "get_list h1 available_songs = ?pool" by (rule r1(4))
    have "guest_performances \<noteq> available_songs" using gp r1(1) by simp
    then have gl: "get_list h1 guest_performances = get_list h guest_performances"
      using r1(5) by (simp add: get_list_def)
    define pool_items where "pool_items =
      filter (\<lambda>s. s \<notin> set [get_item h bouncy, get_item h this_world]) (items_of h ?songs)"
    have pool: "items_of h (get_list h1 available_songs) = pool_items"
      unfolding av pool_items_def by (rule filter_py_in)
    let ?stp' = "run_iterations shuffle_items pool_items
                   (items_of h (get_list h guest_performances))
                   (get_item h bouncy) (get_item h this_world) (nat iterations) ?stp"
    from run_iterations_h_refines
           [where shuffle_items = shuffle_items and shuffle = shuffle and base = h
              and bouncy = bouncy and this_world = this_world and n = "nat iterations",
            OF sh ag lt]
    obtain st' where
      run: "run_iterations_h shuffle available_songs guest_performances bouncy this_world
              (nat iterations) ?st = Some st'"
      and ag': "agrees h st' ?stp'"
      by (auto simp: gl pool)
    from ag' have best: "case best_setlist_h st' of None \<Rightarrow> best_setlist ?stp' = None
        | Some b \<Rightarrow> b < fresh (heap st')
                    \<and> best_setlist ?stp' = Some (items_of h (get_list (heap st') b))"
      and rg: "rng_h st' = rng ?stp'"
      by (simp_all add: agrees_def)
    obtain groups h2 where sg: "split_groups_h (best_setlist_h st') (heap st') = (groups, h2)"
      by (cases "split_groups_h (best_setlist_h st') (heap st')")
    from split_groups_h_refines [OF best]
    have groups: "map_sum id (map (\<lambda>g. items_of h (get_list h2 g))) groups
                    = split_groups (best_setlist ?stp')"
      by (simp add: sg)
    have "generateSetlist_h shuffle songs guest_performances iterations r h
            = Some (groups, rng_h st', h2)"
      by (simp add: generateSetlist_h_def b t n1 run sg)
    moreover have "generateSetlist shuffle_items (items_of h ?songs)
                     (items_of h (get_list h guest_performances)) iterations r
                   = (split_groups (best_setlist ?stp'), rng ?stp')"
      unfolding generateSetlist_def fb ft b t pool_items_def
      by (simp only: option.map prod.case option.case Let_def)
    ultimately show ?thesis by (simp add: groups rg)
  qed
qed

end
